theory Spec2Isabelle
  imports Complex_Main "HOL-Library.Stream" "HOL-Library.Sublist"
begin

section \<open>JavaScript numbers\<close>

text \<open>
  The embedding follows \<^verbatim>\<open>human-mouse.js\<close>.  A JavaScript number that is finite is
  modelled as a \<^typ>\<open>real\<close>, and the arithmetic on finite numbers is exact: the rounding
  of a result to 53 bits is not part of the model.  The three values that are no real
  number are constructors of \<open>jsnum\<close>, and the operations on \<open>jsnum\<close> give the
  results ECMAScript defines for them.  The sign of a zero is not modelled; a zero
  divisor is taken to be \<open>+0\<close>, which it is wherever the source divides.
  \<^verbatim>\<open>Math.round\<close> rounds half up, which is \<^const>\<open>round\<close>.
\<close>

datatype jsnum = Num real | PosInfinity | NegInfinity | NaN

text \<open>
  The range of a double.  A result whose magnitude is at most \<^verbatim>\<open>2^-1075\<close>, half the
  least positive double, is \<open>0\<close>; one whose magnitude is at least
  \<^verbatim>\<open>2^1024 - 2^970\<close>, half an ulp above the greatest double, is an infinity.  The
  range is applied where the source's control flow depends on it: to the squares and
  their sum in \<^verbatim>\<open>vec.mag\<close>, whose result is tested against zero and against 1, to
  the quotient \<^verbatim>\<open>dist / targetWidth\<close>, which bounds the loop of
  \<^verbatim>\<open>generatePath\<close>, and to the products that \<^verbatim>\<open>proj\<close> compares when the
  distance has left the range.
\<close>

definition dbl :: "real \<Rightarrow> jsnum" where
  "dbl a =
     (if \<bar>a\<bar> \<le> 1 / 2 ^ 1075 then Num 0
      else if 2 ^ 1024 - 2 ^ 970 \<le> a then PosInfinity
      else if a \<le> - (2 ^ 1024 - 2 ^ 970) then NegInfinity
      else Num a)"

fun ranged :: "jsnum \<Rightarrow> jsnum" where
  "ranged (Num a) = dbl a"
| "ranged PosInfinity = PosInfinity"
| "ranged NegInfinity = NegInfinity"
| "ranged NaN = NaN"

fun js_neg :: "jsnum \<Rightarrow> jsnum" where
  "js_neg (Num a) = Num (- a)"
| "js_neg PosInfinity = NegInfinity"
| "js_neg NegInfinity = PosInfinity"
| "js_neg NaN = NaN"

fun js_add :: "jsnum \<Rightarrow> jsnum \<Rightarrow> jsnum" where
  "js_add (Num a) (Num b) = Num (a + b)"
| "js_add NaN b = NaN"
| "js_add a NaN = NaN"
| "js_add PosInfinity NegInfinity = NaN"
| "js_add NegInfinity PosInfinity = NaN"
| "js_add PosInfinity b = PosInfinity"
| "js_add a PosInfinity = PosInfinity"
| "js_add NegInfinity b = NegInfinity"
| "js_add a NegInfinity = NegInfinity"

fun js_mult :: "jsnum \<Rightarrow> jsnum \<Rightarrow> jsnum" where
  "js_mult (Num a) (Num b) = Num (a * b)"
| "js_mult NaN b = NaN"
| "js_mult a NaN = NaN"
| "js_mult (Num a) b = (if a = 0 then NaN else if 0 < a then b else js_neg b)"
| "js_mult a (Num b) = (if b = 0 then NaN else if 0 < b then a else js_neg a)"
| "js_mult PosInfinity b = b"
| "js_mult NegInfinity b = js_neg b"

fun js_div :: "jsnum \<Rightarrow> jsnum \<Rightarrow> jsnum" where
  "js_div (Num a) (Num b) =
     (if b = 0 then (if a = 0 then NaN else if 0 < a then PosInfinity else NegInfinity)
      else Num (a / b))"
| "js_div NaN b = NaN"
| "js_div a NaN = NaN"
| "js_div (Num a) b = Num 0"
| "js_div a (Num b) = (if 0 \<le> b then a else js_neg a)"
| "js_div a b = NaN"

fun js_lt :: "jsnum \<Rightarrow> jsnum \<Rightarrow> bool" where
  "js_lt (Num a) (Num b) = (a < b)"
| "js_lt NaN b = False"
| "js_lt a NaN = False"
| "js_lt a NegInfinity = False"
| "js_lt PosInfinity b = False"
| "js_lt a b = True"

fun js_le :: "jsnum \<Rightarrow> jsnum \<Rightarrow> bool" where
  "js_le (Num a) (Num b) = (a \<le> b)"
| "js_le NaN b = False"
| "js_le a NaN = False"
| "js_le NegInfinity b = True"
| "js_le a PosInfinity = True"
| "js_le a b = False"

definition js_gt :: "jsnum \<Rightarrow> jsnum \<Rightarrow> bool" where
  "js_gt a b = js_lt b a"

fun Math_min :: "jsnum \<Rightarrow> jsnum \<Rightarrow> jsnum" where
  "Math_min NaN b = NaN"
| "Math_min a NaN = NaN"
| "Math_min a b = (if js_le a b then a else b)"

fun Math_max :: "jsnum \<Rightarrow> jsnum \<Rightarrow> jsnum" where
  "Math_max NaN b = NaN"
| "Math_max a NaN = NaN"
| "Math_max a b = (if js_le a b then b else a)"

fun Math_round :: "jsnum \<Rightarrow> jsnum" where
  "Math_round (Num a) = Num (of_int (round a))"
| "Math_round PosInfinity = PosInfinity"
| "Math_round NegInfinity = NegInfinity"
| "Math_round NaN = NaN"

fun Math_sqrt :: "jsnum \<Rightarrow> jsnum" where
  "Math_sqrt (Num a) = (if a < 0 then NaN else Num (sqrt a))"
| "Math_sqrt PosInfinity = PosInfinity"
| "Math_sqrt NegInfinity = NaN"
| "Math_sqrt NaN = NaN"

fun Math_log2 :: "jsnum \<Rightarrow> jsnum" where
  "Math_log2 (Num a) = (if 0 < a then Num (log 2 a) else if a = 0 then NegInfinity else NaN)"
| "Math_log2 PosInfinity = PosInfinity"
| "Math_log2 NegInfinity = NaN"
| "Math_log2 NaN = NaN"

text \<open>
  An optional field of an options object is \<open>None\<close> when it is absent
  (\<^verbatim>\<open>undefined\<close>).  \<^verbatim>\<open>a || b\<close> takes \<open>b\<close> when \<open>a\<close> is absent
  or falsy (the numbers \<open>0\<close> and \<^verbatim>\<open>NaN\<close>, the empty string); \<^verbatim>\<open>a ?? b\<close> takes \<open>b\<close>
  only when \<open>a\<close> is absent.  \<open>js_or\<close> is \<^verbatim>\<open>||\<close> on a field that holds a finite
  number, \<open>js_or_num\<close> on a field that holds any number.
\<close>

fun js_truthy :: "jsnum \<Rightarrow> bool" where
  "js_truthy (Num a) = (a \<noteq> 0)"
| "js_truthy NaN = False"
| "js_truthy PosInfinity = True"
| "js_truthy NegInfinity = True"

definition js_or_num :: "jsnum option \<Rightarrow> jsnum \<Rightarrow> jsnum" where
  "js_or_num a b = (case a of None \<Rightarrow> b | Some v \<Rightarrow> if js_truthy v then v else b)"

definition js_or :: "real option \<Rightarrow> real \<Rightarrow> real" where
  "js_or a b = (case a of None \<Rightarrow> b | Some v \<Rightarrow> if v = 0 then b else v)"

definition js_or_str :: "string option \<Rightarrow> string \<Rightarrow> string" where
  "js_or_str a b = (case a of None \<Rightarrow> b | Some v \<Rightarrow> if v = [] then b else v)"

definition js_nullish :: "'a option \<Rightarrow> 'a \<Rightarrow> 'a" where
  "js_nullish a b = (case a of None \<Rightarrow> b | Some v \<Rightarrow> v)"

text \<open>
  Where the source uses a value that is always a finite number, which is proved of
  each such value below, \<open>num_of\<close> reads it back as an operand of exact arithmetic;
  the function is left unspecified elsewhere.
\<close>

fun num_of :: "jsnum \<Rightarrow> real" where
  "num_of (Num a) = a"

section \<open>Vectors and the random source\<close>

text \<open>
  \<open>vec\<close> is a point or vector with finite coordinates, \<open>jsvec\<close> one whose coordinates
  may be no numbers.  \<^verbatim>\<open>vec.mag\<close> is the square root of the sum of the squares as a
  double holds them: a square below the range is \<open>0\<close>, so that a non-zero vector can
  have magnitude \<open>0\<close>, and a square or a sum above the range is \<^verbatim>\<open>Infinity\<close>.  The
  quotients of \<^verbatim>\<open>vec.unit\<close> are JavaScript divisions: with a zero divisor they are
  \<^verbatim>\<open>NaN\<close> or infinite.  \<open>vec_add_js\<close>, \<open>vec_sub_js\<close> and \<open>vec_mult_js\<close> are
  \<^verbatim>\<open>vec.add\<close>, \<^verbatim>\<open>vec.sub\<close> and \<^verbatim>\<open>vec.mult\<close> on operands that may be no
  numbers.
\<close>

record vec =
  x :: real
  y :: real

record jsvec =
  jx :: jsnum
  jy :: jsnum

definition jsvec_of :: "vec \<Rightarrow> jsvec" where
  "jsvec_of a = \<lparr>jx = Num (x a), jy = Num (y a)\<rparr>"

definition vec_of :: "jsvec \<Rightarrow> vec" where
  "vec_of a = \<lparr>x = num_of (jx a), y = num_of (jy a)\<rparr>"

definition vec_add :: "vec \<Rightarrow> vec \<Rightarrow> vec" where
  "vec_add a b = \<lparr>x = x a + x b, y = y a + y b\<rparr>"

definition vec_sub :: "vec \<Rightarrow> vec \<Rightarrow> vec" where
  "vec_sub a b = \<lparr>x = x a - x b, y = y a - y b\<rparr>"

definition vec_mult :: "vec \<Rightarrow> real \<Rightarrow> vec" where
  "vec_mult a s = \<lparr>x = x a * s, y = y a * s\<rparr>"

definition vec_add_js :: "jsvec \<Rightarrow> jsvec \<Rightarrow> jsvec" where
  "vec_add_js a b = \<lparr>jx = js_add (jx a) (jx b), jy = js_add (jy a) (jy b)\<rparr>"

definition vec_sub_js :: "jsvec \<Rightarrow> jsvec \<Rightarrow> jsvec" where
  "vec_sub_js a b = \<lparr>jx = js_add (jx a) (js_neg (jx b)), jy = js_add (jy a) (js_neg (jy b))\<rparr>"

definition vec_mult_js :: "jsvec \<Rightarrow> jsnum \<Rightarrow> jsvec" where
  "vec_mult_js a s = \<lparr>jx = js_mult (jx a) s, jy = js_mult (jy a) s\<rparr>"

definition vec_mag :: "vec \<Rightarrow> jsnum" where
  "vec_mag a = Math_sqrt (ranged (js_add (dbl (x a * x a)) (dbl (y a * y a))))"

definition vec_unit :: "vec \<Rightarrow> jsvec" where
  "vec_unit a =
     (let m = vec_mag a
      in if m = Num 0 then \<lparr>jx = Num 0, jy = Num 0\<rparr>
         else \<lparr>jx = js_div (Num (x a)) m, jy = js_div (Num (y a)) m\<rparr>)"

definition vec_perp :: "vec \<Rightarrow> vec" where
  "vec_perp a = \<lparr>x = y a, y = - x a\<rparr>"

definition vec_setMag :: "vec \<Rightarrow> jsnum \<Rightarrow> jsvec" where
  "vec_setMag a m = vec_mult_js (vec_unit a) m"

definition vec_lerp :: "vec \<Rightarrow> vec \<Rightarrow> real \<Rightarrow> vec" where
  "vec_lerp a b t = \<lparr>x = x a + (x b - x a) * t, y = y a + (y b - y a) * t\<rparr>"

text \<open>
  \<^verbatim>\<open>Math.random\<close> is ambient state in the source.  Here it is a stream of
  draws that every stochastic function takes and returns: a call reads the head and
  leaves the tail.  The contract of \<^verbatim>\<open>Math.random\<close>, a draw in \<open>[0, 1)\<close>,
  is the predicate \<open>uniform_draws\<close>.
\<close>

type_synonym rng = "real stream"

definition uniform_draws :: "rng \<Rightarrow> bool" where
  "uniform_draws g = (\<forall>r \<in> sset g. 0 \<le> r \<and> r < 1)"

definition Math_random :: "rng \<Rightarrow> real \<times> rng" where
  "Math_random g = (shd g, stl g)"

definition rand :: "real \<Rightarrow> real \<Rightarrow> rng \<Rightarrow> real \<times> rng" where
  "rand lo hi g = (case Math_random g of (r, g') \<Rightarrow> (r * (hi - lo) + lo, g'))"

text \<open>
  The rejection loop of \<^verbatim>\<open>gaussRandom\<close> has no bound on its iterations, so it
  is a partial function: \<open>None\<close> is the loop that never leaves.
\<close>

partial_function (option) gaussRandom :: "rng \<Rightarrow> (real \<times> rng) option" where
  "gaussRandom g =
     (case Math_random g of (r1, g1) \<Rightarrow>
      case Math_random g1 of (r2, g2) \<Rightarrow>
        (let u = r1 * 2 - 1; v = r2 * 2 - 1; s = u * u + v * v
         in if s \<ge> 1 \<or> s = 0 then gaussRandom g2
            else Some (u * sqrt (- 2 * ln s / s), g2)))"

definition gauss :: "real \<Rightarrow> real \<Rightarrow> rng \<Rightarrow> (real \<times> rng) option" where
  "gauss mean stddev g =
     (case gaussRandom g of None \<Rightarrow> None
      | Some (n, g') \<Rightarrow> Some (mean + n * stddev, g'))"

section \<open>Bezier control points and path generation\<close>

text \<open>
  \<^verbatim>\<open>makeCP\<close> and \<^verbatim>\<open>proj\<close> are closures of \<^verbatim>\<open>bezierControlPoints\<close>;
  the variables they capture are parameters here.  The distance and the spread clamped
  with it may be infinite, so the normal and the control points are of type \<open>jsvec\<close>.
  Where the distance has left the range of a double (it is \<open>0\<close> or infinite), the
  squares behind it have, and the products of \<^verbatim>\<open>proj\<close> are of their size: the
  range is then applied to these products and to their sum.  With a distance inside
  the range the arithmetic of \<^verbatim>\<open>proj\<close> is exact.  The two-element array the
  function returns is a pair.
\<close>

definition makeCP :: "vec \<Rightarrow> vec \<Rightarrow> vec \<Rightarrow> jsnum \<Rightarrow> real \<Rightarrow> rng \<Rightarrow> jsvec \<times> rng" where
  "makeCP start end dir clampedSpread side g =
     (let (t, g1) = rand 0.2 0.8 g;
          midPoint = vec_lerp start end t;
          (r, g2) = rand 0.3 1.0 g1;
          normal = vec_setMag (vec_perp dir) (js_mult (js_mult clampedSpread (Num r)) (Num side))
      in (vec_add_js (jsvec_of midPoint) normal, g2))"

definition proj :: "vec \<Rightarrow> vec \<Rightarrow> jsnum \<Rightarrow> jsvec \<Rightarrow> jsnum" where
  "proj start dir dst p =
     (let d = vec_sub_js p (jsvec_of start);
          px = js_mult (jx d) (Num (x dir));
          py = js_mult (jy d) (Num (y dir))
      in if dst = Num 0 \<or> dst = PosInfinity
         then js_div (ranged (js_add (ranged px) (ranged py))) (js_mult dst dst)
         else js_div (js_add px py) (js_mult dst dst))"

definition bezierControlPoints ::
  "vec \<Rightarrow> vec \<Rightarrow> jsnum option \<Rightarrow> rng \<Rightarrow> (jsvec \<times> jsvec) \<times> rng" where
  "bezierControlPoints start end spread g =
     (let dir = vec_sub end start;
          dist = vec_mag dir;
          clampedSpread =
            Math_max (Num 2)
              (Math_min (js_mult dist (Num 0.5)) (js_or_num spread (js_mult dist (Num 0.3))));
          (r, g1) = Math_random g;
          side = (if r > 0.5 then 1 else - 1);
          (cp1, g2) = makeCP start end dir clampedSpread side g1;
          (cp2, g3) = makeCP start end dir clampedSpread side g2
      in (if js_le (proj start dir dist cp1) (proj start dir dist cp2)
          then (cp1, cp2) else (cp2, cp1), g3))"

definition cubicBezier :: "vec \<Rightarrow> jsvec \<Rightarrow> jsvec \<Rightarrow> vec \<Rightarrow> real \<Rightarrow> jsvec" where
  "cubicBezier p0 p1 p2 p3 t =
     (let u = 1 - t
      in \<lparr>jx = js_add (js_add (js_add (Num (u * u * u * x p0))
                                       (js_mult (Num (3 * u * u * t)) (jx p1)))
                               (js_mult (Num (3 * u * t * t)) (jx p2)))
                       (Num (t * t * t * x p3)),
          jy = js_add (js_add (js_add (Num (u * u * u * y p0))
                                       (js_mult (Num (3 * u * u * t)) (jy p1)))
                               (js_mult (Num (3 * u * t * t)) (jy p2)))
                       (Num (t * t * t * y p3))\<rparr>)"

text \<open>
  A path point has coordinates that may be no numbers, as the control points are.
  Of the options, \<^verbatim>\<open>steps\<close>, \<^verbatim>\<open>spread\<close>, \<^verbatim>\<open>targetWidth\<close> and
  \<^verbatim>\<open>overshootThreshold\<close> hold any number; \<^verbatim>\<open>tremor\<close>, which scales the Gaussian
  deviate, holds a finite one.
\<close>

record pathPoint = jsvec +
  dt :: real

record opts =
  steps :: "jsnum option"
  tremor :: "real option"
  spread :: "jsnum option"
  targetWidth :: "jsnum option"
  overshootThreshold :: "jsnum option"
  button :: "string option"

text \<open>
  The step count \<^verbatim>\<open>opts.steps || Math.max(15, Math.round(fittsTime * 18 + rand(5, 15)))\<close>:
  the right operand is evaluated, and the draw made, only when \<^verbatim>\<open>opts.steps\<close> is
  absent or falsy.
\<close>

definition fittsSteps :: "jsnum \<Rightarrow> real \<Rightarrow> jsnum" where
  "fittsSteps fittsTime r =
     Math_max (Num 15) (Math_round (js_add (js_mult fittsTime (Num 18)) (Num r)))"

definition baseSteps :: "opts \<Rightarrow> jsnum \<Rightarrow> rng \<Rightarrow> jsnum \<times> rng" where
  "baseSteps opts fittsTime g =
     (case steps opts of
        None \<Rightarrow> (let (r, g1) = rand 5 15 g in (fittsSteps fittsTime r, g1))
      | Some n \<Rightarrow>
          if js_truthy n then (n, g)
          else (let (r, g1) = rand 5 15 g in (fittsSteps fittsTime r, g1)))"

text \<open>
  One iteration of the \<^verbatim>\<open>for\<close> loop of \<^verbatim>\<open>generatePath\<close>: the point pushed
  at index \<open>i\<close>.  The loop runs only with a step count \<open>n\<close> that is a non-zero number or
  \<^verbatim>\<open>Infinity\<close>; the quotient \<^verbatim>\<open>i / baseSteps\<close> is then a finite number, \<open>0\<close> when
  the step count is infinite.
\<close>

definition pathStep ::
  "vec \<Rightarrow> jsvec \<Rightarrow> jsvec \<Rightarrow> vec \<Rightarrow> real \<Rightarrow> jsnum \<Rightarrow> nat \<Rightarrow> rng \<Rightarrow> (pathPoint \<times> rng) option" where
  "pathStep from cp1 cp2 to tr n i g =
     (let t = num_of (js_div (Num (real i)) n);
          eased = t * t * t * (t * (t * 6 - 15) + 10);
          p = cubicBezier from cp1 cp2 to eased;
          tremorScale = 1 - t ^ 2
      in case gauss 0 (tr * tremorScale) g of None \<Rightarrow> None
         | Some (jitterX, g1) \<Rightarrow>
       (case gauss 0 (tr * tremorScale) g1 of None \<Rightarrow> None
         | Some (jitterY, g2) \<Rightarrow>
       (let speedFactor = 0.3 + 0.7 * sin (pi * t);
            (baseDt, g3) = rand 4 12 g2;
            d = baseDt / max speedFactor 0.3
        in Some (\<lparr>jx = Math_round (js_add (jx p) (Num jitterX)),
                  jy = Math_round (js_add (jy p) (Num jitterY)),
                  dt = of_int (round d)\<rparr>, g3))))"

text \<open>
  The loop \<^verbatim>\<open>for (let i = 0; i <= baseSteps; i++)\<close>.  \<^verbatim>\<open>points.push\<close> throws
  a \<^verbatim>\<open>RangeError\<close> when the array holds \<^verbatim>\<open>2^32 - 1\<close> elements, the greatest
  length of an array; the counter \<open>i\<close> is exact up to there.  \<open>None\<close> is a call
  that returns no value: it runs forever or it throws.
\<close>

partial_function (option) pathLoop ::
  "vec \<Rightarrow> jsvec \<Rightarrow> jsvec \<Rightarrow> vec \<Rightarrow> real \<Rightarrow> jsnum \<Rightarrow> nat \<Rightarrow> pathPoint list \<Rightarrow> rng
     \<Rightarrow> (pathPoint list \<times> rng) option" where
  "pathLoop from cp1 cp2 to tr n i points g =
     (if js_le (Num (real i)) n
      then (case pathStep from cp1 cp2 to tr n i g of None \<Rightarrow> None
            | Some (p, g') \<Rightarrow>
                if length points = 2 ^ 32 - 1 then None
                else pathLoop from cp1 cp2 to tr n (Suc i) (points @ [p]) g')
      else Some (points, g))"

text \<open>
  \<^verbatim>\<open>points[points.length - 1] = v\<close>: on an empty array the index is \<open>-1\<close>, the
  assignment creates a property of that name and the array stays empty.
\<close>

definition snapLast :: "pathPoint list \<Rightarrow> pathPoint \<Rightarrow> pathPoint list" where
  "snapLast points v = (if points = [] then [] else points[length points - 1 := v])"

definition generatePath :: "vec \<Rightarrow> vec \<Rightarrow> opts \<Rightarrow> rng \<Rightarrow> (pathPoint list \<times> rng) option" where
  "generatePath from to opts g =
     (let dist = vec_mag (vec_sub to from)
      in if js_lt dist (Num 1) then Some ([\<lparr>jx = Num (x to), jy = Num (y to), dt = 0\<rparr>], g)
         else
           (let tw = js_or_num (targetWidth opts) (Num 50);
                tr = js_nullish (tremor opts) 1.2;
                fittsTime = Math_log2 (js_add (ranged (js_div dist tw)) (Num 1));
                (n, g1) = baseSteps opts fittsTime g;
                ((cp1, cp2), g2) = bezierControlPoints from to (spread opts) g1
            in case pathLoop from cp1 cp2 to tr n 0 [] g2 of None \<Rightarrow> None
               | Some (points, g3) \<Rightarrow>
                   (let (r, g4) = rand 2 6 g3
                    in Some (snapLast points
                               \<lparr>jx = Num (of_int (round (x to))), jy = Num (of_int (round (y to))),
                                dt = r\<rparr>,
                             g4))))"

text \<open>
  In \<^verbatim>\<open>generateOvershootPath\<close> the bound \<^verbatim>\<open>Math.min(35, dist * 0.08)\<close> and the
  unit vector \<open>dir\<close> are finite numbers whatever the distance is, and are read back
  as such.  The array \<^verbatim>\<open>[...leg1, ...leg2]\<close> cannot be created when the two legs
  have more than \<^verbatim>\<open>2^32 - 1\<close> points together.
\<close>

definition generateOvershootPath ::
  "vec \<Rightarrow> vec \<Rightarrow> opts \<Rightarrow> rng \<Rightarrow> (pathPoint list \<times> rng) option" where
  "generateOvershootPath from to opts g =
     (let dist = vec_mag (vec_sub to from);
          (overshootDist, g1) = rand 8 (num_of (Math_min (Num 35) (js_mult dist (Num 0.08)))) g;
          dir = vec_of (vec_unit (vec_sub to from));
          overshootPoint = vec_add to (vec_mult dir overshootDist)
      in case gauss 0 (overshootDist * 0.4) g1 of None \<Rightarrow> None
         | Some (n, g2) \<Rightarrow>
       (let perpOffset = vec_mult (vec_perp dir) n;
            overshootTarget = vec_add overshootPoint perpOffset
        in case generatePath from overshootTarget
                  (opts\<lparr>tremor := Some (js_nullish (tremor opts) 1.2 * 1.3)\<rparr>) g2 of
             None \<Rightarrow> None
           | Some (leg1, g3) \<Rightarrow>
         (let (leg1', g4) =
                (if length leg1 > 0
                 then (let (r, g') = rand 40 120 g3
                       in (leg1[length leg1 - 1 := (last leg1)\<lparr>dt := of_int (round r)\<rparr>], g'))
                 else (leg1, g3));
              (r2, g5) = rand 8 18 g4
          in case generatePath overshootTarget to
                    (opts\<lparr>steps := Some (Num (max 8 (of_int (round r2)))),
                          tremor := Some (js_nullish (tremor opts) 1.2 * 0.6)\<rparr>) g5 of
               None \<Rightarrow> None
             | Some (leg2, g6) \<Rightarrow>
                 if length leg1' + length leg2 > 2 ^ 32 - 1 then None
                 else Some (leg1' @ leg2, g6))))"

section \<open>The mouse controller\<close>

text \<open>
  The Playwright page is outside the repository.  It is modelled as the sequence of
  commands it has received, in order; a command always succeeds.  The state of the
  program is the cursor position captured by the closure of \<^verbatim>\<open>createHumanMouse\<close>,
  its \<^verbatim>\<open>debug\<close> flag, the random source, the commands the page has received and
  whether the page holds the element \<^verbatim>\<open>ghost-cursor\<close>.  An \<^verbatim>\<open>async\<close> function
  takes the state and returns the state it leaves; \<open>None\<close> is a call that does not
  return.
\<close>

datatype event =
    MouseMove jsnum jsnum
  | Wait real
  | MouseDown string
  | MouseUp string
  | Wheel real real
  | KeyPress char
  | LogLine string vec

record state =
  cursorPos :: vec
  debug :: bool
  draws :: rng
  page :: "event list"
  ghostCursor :: bool

record box = vec +
  width :: real
  height :: real

definition emit :: "event \<Rightarrow> state \<Rightarrow> state" where
  "emit e s = s\<lparr>page := page s @ [e]\<rparr>"

text \<open>\<^verbatim>\<open>await page.waitForTimeout(Math.round(rand(lo, hi)))\<close>\<close>

definition waitRand :: "real \<Rightarrow> real \<Rightarrow> state \<Rightarrow> state" where
  "waitRand lo hi s =
     (let (r, g) = rand lo hi (draws s)
      in emit (Wait (of_int (round r))) (s\<lparr>draws := g\<rparr>))"

definition createHumanMouse :: "vec option \<Rightarrow> bool option \<Rightarrow> rng \<Rightarrow> state" where
  "createHumanMouse startPos dbg g =
     (case startPos of
        Some p \<Rightarrow> \<lparr>cursorPos = p, debug = js_nullish dbg False, draws = g, page = [],
                   ghostCursor = False\<rparr>
      | None \<Rightarrow>
          (let (r1, g1) = rand 100 350 g;
               (r2, g2) = rand 300 500 g1
           in \<lparr>cursorPos = \<lparr>x = of_int (round r1), y = of_int (round r2)\<rparr>,
               debug = js_nullish dbg False, draws = g2, page = [], ghostCursor = False\<rparr>))"

text \<open>
  \<^verbatim>\<open>ensureVisibleCursor\<close> does nothing unless \<^verbatim>\<open>debug\<close> is set; it then asks
  the page whether the element exists and creates it if not.  An error of the page is
  caught there and ignored.
\<close>

definition ensureVisibleCursor :: "state \<Rightarrow> state" where
  "ensureVisibleCursor s =
     (if \<not> debug s then s
      else if ghostCursor s then s
      else s\<lparr>ghostCursor := True\<rparr>)"

fun replay :: "pathPoint list \<Rightarrow> state \<Rightarrow> state" where
  "replay [] s = s"
| "replay (point # path) s =
     replay path
       (let s1 = emit (MouseMove (jx point) (jy point)) s
        in if dt point > 0 then emit (Wait (dt point)) s1 else s1)"

definition moveTo :: "real \<Rightarrow> real \<Rightarrow> opts \<Rightarrow> state \<Rightarrow> state option" where
  "moveTo tx ty moveOpts s =
     (let target = \<lparr>x = tx, y = ty\<rparr>;
          dist = vec_mag (vec_sub target (cursorPos s));
          threshold = js_nullish (overshootThreshold moveOpts) (Num 300);
          (shouldOvershoot, g1) =
             (if js_gt dist threshold
              then (let (r, g') = Math_random (draws s) in (r > 0.3, g'))
              else (False, draws s))
      in case (if shouldOvershoot
               then generateOvershootPath (cursorPos s) target moveOpts g1
               else generatePath (cursorPos s) target moveOpts g1) of
           None \<Rightarrow> None
         | Some (path, g2) \<Rightarrow>
             Some ((replay path (ensureVisibleCursor (s\<lparr>draws := g2\<rparr>)))\<lparr>cursorPos := target\<rparr>))"

definition moveToElement :: "box \<Rightarrow> opts \<Rightarrow> state \<Rightarrow> (vec \<times> state) option" where
  "moveToElement bx moveOpts s =
     (let padX = width bx * 0.15;
          padY = height bx * 0.15;
          (rx, g1) = rand 0 (width bx - 2 * padX) (draws s);
          targetX = of_int (round (x bx + padX + rx));
          (ry, g2) = rand 0 (height bx - 2 * padY) g1;
          targetY = of_int (round (y bx + padY + ry))
      in case moveTo targetX targetY (moveOpts\<lparr>targetWidth := Some (Num (width bx))\<rparr>)
                (s\<lparr>draws := g2\<rparr>) of
           None \<Rightarrow> None
         | Some s' \<Rightarrow> Some (\<lparr>x = targetX, y = targetY\<rparr>, s'))"

definition click :: "opts \<Rightarrow> state \<Rightarrow> state" where
  "click clickOpts s =
     (let s1 = waitRand 60 180 s;
          s2 = emit (MouseDown (js_or_str (button clickOpts) ''left'')) s1;
          s3 = waitRand 50 120 s2;
          s4 = emit (MouseUp (js_or_str (button clickOpts) ''left'')) s3
      in waitRand 80 200 s4)"

definition moveAndClick :: "box \<Rightarrow> string option \<Rightarrow> opts \<Rightarrow> state \<Rightarrow> (vec \<times> state) option" where
  "moveAndClick bx label clickOpts s =
     (case moveToElement bx clickOpts s of None \<Rightarrow> None
      | Some (target, s1) \<Rightarrow>
          (let s2 = emit (LogLine (js_or_str label ''element'') target) s1;
               s3 = waitRand 100 400 s2
           in Some (target, click clickOpts s3)))"

text \<open>
  The loop of \<^verbatim>\<open>idleDrift\<close>; \<open>n\<close> is the iteration count drawn before it.
\<close>

function idleLoop :: "int \<Rightarrow> nat \<Rightarrow> state \<Rightarrow> state option" where
  "idleLoop n i s =
     (if int i < n
      then (case gauss 0 3 (draws s) of None \<Rightarrow> None
            | Some (dx, g1) \<Rightarrow>
          (case gauss 0 3 g1 of None \<Rightarrow> None
            | Some (dy, g2) \<Rightarrow>
          (let next = \<lparr>x = of_int (round (x (cursorPos s) + dx)),
                       y = of_int (round (y (cursorPos s) + dy))\<rparr>;
               s1 = emit (MouseMove (Num (x next)) (Num (y next))) (s\<lparr>draws := g2\<rparr>);
               s2 = s1\<lparr>cursorPos := next\<rparr>
           in idleLoop n (Suc i) (waitRand 150 400 s2))))
      else Some s)"
  by pat_completeness auto
termination
  by (relation "measure (\<lambda>(n, i, s). nat (n - int i))") auto

text \<open>
  \<^verbatim>\<open>idleDrift(durationMs = 2000)\<close>.  The divisor \<^verbatim>\<open>rand(200, 500)\<close> is not
  zero for a draw in \<open>[0, 1)\<close>.  Were it zero, the quotient would be \<^verbatim>\<open>Infinity\<close>
  for a positive duration, and the loop would not end; for any other duration the loop
  would not be entered.
\<close>

definition idleDrift :: "real option \<Rightarrow> state \<Rightarrow> state option" where
  "idleDrift durationMs s =
     (let d = js_nullish durationMs 2000;
          (r, g) = rand 200 500 (draws s)
      in if r = 0 then (if d > 0 then None else Some (s\<lparr>draws := g\<rparr>))
         else idleLoop (round (d / r)) 0 (s\<lparr>draws := g\<rparr>))"

text \<open>
  The loop of \<^verbatim>\<open>humanScroll\<close>; \<open>n\<close> is the step count and \<open>perStep\<close> the quotient
  computed before it.
\<close>

function scrollLoop :: "int \<Rightarrow> real \<Rightarrow> nat \<Rightarrow> state \<Rightarrow> state option" where
  "scrollLoop n perStep i s =
     (if int i < n
      then (case gauss 0 (\<bar>perStep\<bar> * 0.15) (draws s) of None \<Rightarrow> None
            | Some (noise, g1) \<Rightarrow>
          (let scrollAmount = perStep + noise;
               s1 = emit (Wheel 0 (of_int (round scrollAmount))) (s\<lparr>draws := g1\<rparr>)
           in scrollLoop n perStep (Suc i) (waitRand 60 150 s1)))
      else Some s)"
  by pat_completeness auto
termination
  by (relation "measure (\<lambda>(n, perStep, i, s). nat (n - int i))") auto

definition humanScroll :: "real \<Rightarrow> state \<Rightarrow> state option" where
  "humanScroll deltaY s =
     (let (r, g) = rand 3 6 (draws s);
          n = round r;
          perStep = deltaY / of_int n
      in case scrollLoop n perStep 0 (s\<lparr>draws := g\<rparr>) of None \<Rightarrow> None
         | Some s1 \<Rightarrow> Some (waitRand 200 500 s1))"

text \<open>The accessor \<^verbatim>\<open>position\<close> of the controller: its getter and its setter.\<close>

definition get_position :: "state \<Rightarrow> vec" where
  "get_position s = \<lparr>x = x (cursorPos s), y = y (cursorPos s)\<rparr>"

definition set_position :: "vec \<Rightarrow> state \<Rightarrow> state" where
  "set_position p s = s\<lparr>cursorPos := \<lparr>x = x p, y = y p\<rparr>\<rparr>"

section \<open>Typing\<close>

text \<open>
  \<^verbatim>\<open>String.prototype.includes\<close>: the argument occurs in the string as a
  contiguous run, which the empty string does everywhere.  \<^verbatim>\<open>text[j]\<close> is
  \<^verbatim>\<open>undefined\<close> outside the string and the string of the one character at \<open>j\<close>
  inside.  Characters stand for the UTF-16 code units of the source's strings.
\<close>

fun str_includes :: "string \<Rightarrow> string \<Rightarrow> bool" where
  "str_includes [] sub = (sub = [])"
| "str_includes (c # cs) sub = (prefix sub (c # cs) \<or> str_includes cs sub)"

definition js_index :: "string \<Rightarrow> int \<Rightarrow> string option" where
  "js_index text j = (if 0 \<le> j \<and> j < int (length text) then Some [text ! nat j] else None)"

record typeOpts =
  baseDelay :: "real option"
  variance :: "real option"

text \<open>
  The test of the pause after punctuation, at index \<open>i\<close> of \<open>text\<close>:
  \<^verbatim>\<open>',. ;:!?'.includes(text[i - 1] || '')\<close>.
\<close>

definition punctuationPause :: "string \<Rightarrow> nat \<Rightarrow> bool" where
  "punctuationPause text i = str_includes '',. ;:!?'' (js_or_str (js_index text (int i - 1)) [])"

function typeLoop :: "string \<Rightarrow> real \<Rightarrow> real \<Rightarrow> nat \<Rightarrow> state \<Rightarrow> state option" where
  "typeLoop text bd var i s =
     (if i < length text
      then (let char = text ! i;
                (r, g1) = Math_random (draws s);
                s1 = s\<lparr>draws := g1\<rparr>;
                s2 = (if r < 0.08 \<and> i > 0 then waitRand 200 600 s1 else s1);
                s3 = (if punctuationPause text i then waitRand 80 200 s2 else s2);
                s4 = emit (KeyPress char) s3
            in case gauss bd var (draws s4) of None \<Rightarrow> None
               | Some (v, g2) \<Rightarrow>
                   (let delay = max 20 v
                    in typeLoop text bd var (Suc i)
                         (emit (Wait (of_int (round delay))) (s4\<lparr>draws := g2\<rparr>))))
      else Some s)"
  by pat_completeness auto
termination
  by (relation "measure (\<lambda>(text, bd, var, i, s). length text - i)") auto

definition humanType :: "string \<Rightarrow> typeOpts \<Rightarrow> state \<Rightarrow> state option" where
  "humanType text opts s =
     (let bd = js_or (baseDelay opts) 65;
          var = js_or (variance opts) 35
      in typeLoop text bd var 0 s)"

section \<open>Notions the properties are stated with\<close>

text \<open>
  The \<open>k\<close>-th pair \<open>(u, v)\<close> the rejection loop forms from a stream of draws, the
  test that the pair lies in the open square and strictly inside the punctured unit
  disc, and the deviate formed from an accepted pair.
\<close>

definition pair_u :: "rng \<Rightarrow> nat \<Rightarrow> real" where
  "pair_u g k = g !! (2 * k) * 2 - 1"

definition pair_v :: "rng \<Rightarrow> nat \<Rightarrow> real" where
  "pair_v g k = g !! (2 * k + 1) * 2 - 1"

definition accepted :: "real \<Rightarrow> real \<Rightarrow> bool" where
  "accepted u v =
     (- 1 < u \<and> u < 1 \<and> - 1 < v \<and> v < 1 \<and> 0 < u * u + v * v \<and> u * u + v * v < 1)"

definition boxMuller :: "real \<Rightarrow> real \<Rightarrow> real" where
  "boxMuller u v = (let s = u * u + v * v in u * sqrt (- 2 * ln s / s))"

text \<open>
  A stream is \<open>fair\<close> when, from every position, the rejection loop meets a pair it
  accepts.  A stream of independent uniform draws is fair with probability 1.
\<close>

definition fair :: "rng \<Rightarrow> bool" where
  "fair g = (\<forall>n. \<exists>k. accepted (pair_u (sdrop n g) k) (pair_v (sdrop n g) k))"

text \<open>
  The number of iterations of the loop \<^verbatim>\<open>for (let i = 0; i <= baseSteps; i++)\<close>
  that are still to run at index \<open>i\<close>, for a step count that is not \<^verbatim>\<open>Infinity\<close>.
\<close>

definition iterations :: "jsnum \<Rightarrow> nat \<Rightarrow> nat" where
  "iterations n i = (case n of Num b \<Rightarrow> if real i \<le> b then nat \<lfloor>b\<rfloor> + 1 - i else 0 | _ \<Rightarrow> 0)"

text \<open>The value of the variable \<^verbatim>\<open>baseSteps\<close> in a call of \<open>generatePath\<close>.\<close>

definition stepCount :: "vec \<Rightarrow> vec \<Rightarrow> opts \<Rightarrow> rng \<Rightarrow> jsnum" where
  "stepCount from to opts g =
     fst (baseSteps opts
            (Math_log2 (js_add (ranged (js_div (vec_mag (vec_sub to from))
                                               (js_or_num (targetWidth opts) (Num 50))))
                               (Num 1))) g)"

text \<open>A number is an integer when it equals its floor.\<close>

definition is_integer :: "real \<Rightarrow> bool" where
  "is_integer v = (of_int \<lfloor>v\<rfloor> = v)"

text \<open>The options object \<^verbatim>\<open>{}\<close>, the default of every \<^verbatim>\<open>opts\<close> parameter.\<close>

definition noOpts :: opts where
  "noOpts = \<lparr>steps = None, tremor = None, spread = None, targetWidth = None,
              overshootThreshold = None, button = None\<rparr>"



text \<open>
  \<open>later g g'\<close>: the stream \<open>g'\<close> is what is left of \<open>g\<close> after some number of draws.
\<close>

definition later :: "rng \<Rightarrow> rng \<Rightarrow> bool" where
  "later g g' = (\<exists>n. g' = sdrop n g)"

text \<open>
  The commands the loop of \<open>humanScroll\<close> sends: for each step the scroll-by and the
  wait that follows it.  \<open>scrolls\<close> and \<open>waits\<close> count the scroll-by commands and the
  waits a page has received.
\<close>

definition scrollPairs :: "(real \<times> real) list \<Rightarrow> event list" where
  "scrollPairs ws = concat (map (\<lambda>(a, d). [Wheel 0 a, Wait d]) ws)"

fun is_wait :: "event \<Rightarrow> bool" where
  "is_wait (Wait d) = True"
| "is_wait e = False"

fun is_wheel :: "event \<Rightarrow> bool" where
  "is_wheel (Wheel a b) = True"
| "is_wheel e = False"

definition waits :: "state \<Rightarrow> nat" where
  "waits s = length (filter is_wait (page s))"

definition scrolls :: "state \<Rightarrow> nat" where
  "scrolls s = length (filter is_wheel (page s))"

text \<open>
  The controller \<^verbatim>\<open>createHumanMouse(page, {startPos: {x: 0, y: 0}})\<close> on a page that has
  received nothing, with a random source whose every draw is \<open>c\<close>.
\<close>

definition constState :: "real \<Rightarrow> state" where
  "constState c = createHumanMouse (Some \<lparr>x = 0, y = 0\<rparr>) None (sconst c)"

text \<open>The options object \<^verbatim>\<open>{}\<close> of \<open>humanType\<close>.\<close>

definition noTypeOpts :: typeOpts where
  "noTypeOpts = \<lparr>baseDelay = None, variance = None\<rparr>"

text \<open>A path point is integer when its coordinates and its delay are.\<close>

fun integer_num :: "jsnum \<Rightarrow> bool" where
  "integer_num (Num a) = is_integer a"
| "integer_num v = False"

definition integer_point :: "pathPoint \<Rightarrow> bool" where
  "integer_point p = (integer_num (jx p) \<and> integer_num (jy p) \<and> is_integer (dt p))"


section \<open>The range of a double and the vector operations\<close>

lemma dbl_zero: "dbl 0 = Num 0"
  by (simp add: dbl_def)

lemma dbl_cases:
  fixes a :: real
  defines "T \<equiv> 1 / 2 ^ 1075" and "H \<equiv> 2 ^ 1024 - 2 ^ 970"
  shows "(dbl a = Num 0 \<and> \<bar>a\<bar> \<le> T) \<or>
         (dbl a = Num a \<and> T < \<bar>a\<bar> \<and> \<bar>a\<bar> < H) \<or>
         (dbl a = PosInfinity \<and> H \<le> a) \<or>
         (dbl a = NegInfinity \<and> a \<le> - H)"
proof -
  have TH: "0 < T" "T < H" by (simp_all add: T_def H_def)
  have d: "dbl a = (if \<bar>a\<bar> \<le> T then Num 0 else if H \<le> a then PosInfinity
                   else if a \<le> - H then NegInfinity else Num a)"
    unfolding dbl_def T_def H_def by (rule refl)
  show ?thesis
  proof (cases "\<bar>a\<bar> \<le> T")
    case True
    then show ?thesis by (simp add: d)
  next
    case False
    note nT = this
    show ?thesis
    proof (cases "H \<le> a")
      case True
      then show ?thesis using nT by (simp add: d)
    next
      case False
      note nH = this
      show ?thesis
      proof (cases "a \<le> - H")
        case True
        then show ?thesis using nT nH by (simp add: d)
      next
        case False
        then have "\<bar>a\<bar> < H" using nH by linarith
        then show ?thesis using nT nH False by (simp add: d)
      qed
    qed
  qed
qed

lemma dbl_id:
  assumes "1 / 2 ^ 1075 < \<bar>a\<bar>" and "\<bar>a\<bar> < 2 ^ 1024 - 2 ^ 970"
  shows "dbl a = Num a"
  using dbl_cases [of a] assms by linarith

lemma dbl_nonneg:
  assumes "0 \<le> a"
  shows "(dbl a = Num 0 \<and> a \<le> 1 / 2 ^ 1075) \<or>
         (dbl a = Num a \<and> 1 / 2 ^ 1075 < a \<and> a < 2 ^ 1024 - 2 ^ 970) \<or>
         (dbl a = PosInfinity \<and> 2 ^ 1024 - 2 ^ 970 \<le> a)"
proof -
  have "(0 :: real) < 2 ^ 1024 - 2 ^ 970" by simp
  then show ?thesis using dbl_cases [of a] assms by linarith
qed



lemma vec_mag_in_range:
  assumes "x a * x a = 0 \<or> 1 / 2 ^ 1075 < x a * x a"
    and "y a * y a = 0 \<or> 1 / 2 ^ 1075 < y a * y a"
    and "x a * x a + y a * y a < 2 ^ 1024 - 2 ^ 970"
  shows "vec_mag a = Num (sqrt (x a * x a + y a * y a))"
proof -
  define p where "p = x a * x a"
  define q where "q = y a * y a"
  have pq: "0 \<le> p" "0 \<le> q" by (simp_all add: p_def q_def)
  have dp: "dbl p = Num p"
    using dbl_nonneg [OF pq(1)] assms(1,3) pq unfolding p_def [symmetric] q_def [symmetric]
    by (auto simp: dbl_zero)
  have dq: "dbl q = Num q"
    using dbl_nonneg [OF pq(2)] assms(2,3) pq unfolding p_def [symmetric] q_def [symmetric]
    by (auto simp: dbl_zero)
  have "0 \<le> p + q" using pq by simp
  then have ds: "dbl (p + q) = Num (p + q)"
    using dbl_nonneg [of "p + q"] assms pq unfolding p_def [symmetric] q_def [symmetric]
    by (auto simp: dbl_zero)
  show ?thesis
    unfolding vec_mag_def p_def [symmetric] q_def [symmetric] using pq
    by (simp add: dp dq ds)
qed

lemma vec_mag_cases:
  "vec_mag a = PosInfinity \<or>
   (\<exists>m. vec_mag a = Num m \<and> 0 \<le> m \<and> m * m \<le> x a * x a + y a * y a)"
proof -
  define p where "p = x a * x a"
  define q where "q = y a * y a"
  have pq: "0 \<le> p" "0 \<le> q" by (simp_all add: p_def q_def)
  obtain p' where p': "dbl p = PosInfinity \<or> (dbl p = Num p' \<and> 0 \<le> p' \<and> p' \<le> p)"
    using dbl_nonneg [OF pq(1)] pq by auto
  obtain q' where q': "dbl q = PosInfinity \<or> (dbl q = Num q' \<and> 0 \<le> q' \<and> q' \<le> q)"
    using dbl_nonneg [OF pq(2)] pq by auto
  show ?thesis
  proof (cases "dbl p = PosInfinity \<or> dbl q = PosInfinity")
    case True
    then have "js_add (dbl p) (dbl q) = PosInfinity"
      using p' q' by auto
    then show ?thesis unfolding vec_mag_def p_def [symmetric] q_def [symmetric] by simp
  next
    case False
    then have dp: "dbl p = Num p'" "0 \<le> p'" "p' \<le> p" and dq: "dbl q = Num q'" "0 \<le> q'" "q' \<le> q"
      using p' q' by auto
    have s0: "0 \<le> p' + q'" using dp dq by simp
    have m: "vec_mag a = Math_sqrt (dbl (p' + q'))"
      unfolding vec_mag_def p_def [symmetric] q_def [symmetric] by (simp add: dp dq)
    from dbl_nonneg [OF s0] show ?thesis
    proof (elim disjE conjE)
      assume "dbl (p' + q') = Num 0"
      then have "vec_mag a = Num 0" using m by simp
      then show ?thesis using pq unfolding p_def q_def by simp
    next
      assume "dbl (p' + q') = Num (p' + q')"
      then have "vec_mag a = Num (sqrt (p' + q'))" using m s0 by simp
      moreover have "sqrt (p' + q') * sqrt (p' + q') \<le> p + q" using s0 dp dq by simp
      ultimately show ?thesis using s0 unfolding p_def q_def by simp
    next
      assume "dbl (p' + q') = PosInfinity"
      then show ?thesis using m by simp
    qed
  qed
qed

lemma vec_mag_nonneg: "vec_mag a = Num m \<Longrightarrow> 0 \<le> m"
  using vec_mag_cases [of a] by auto


lemma vec_mag_not_special: "vec_mag a \<noteq> NaN" "vec_mag a \<noteq> NegInfinity"
  using vec_mag_cases [of a] by auto

lemma vec_unit_Num: "\<exists>u v. vec_unit a = \<lparr>jx = Num u, jy = Num v\<rparr>"
proof -
  from vec_mag_cases [of a] show ?thesis
  proof (elim disjE exE conjE)
    assume "vec_mag a = PosInfinity"
    then show ?thesis by (simp add: vec_unit_def)
  next
    fix m assume "vec_mag a = Num m"
    then show ?thesis by (simp add: vec_unit_def Let_def)
  qed
qed

lemma overshoot_bound_Num:
  "\<exists>b. Math_min (Num 35) (js_mult (vec_mag a) (Num 0.08)) = Num b \<and> b \<le> 35"
proof -
  from vec_mag_cases [of a] show ?thesis
  proof (elim disjE exE conjE)
    assume "vec_mag a = PosInfinity"
    then show ?thesis by simp
  next
    fix m assume "vec_mag a = Num m"
    then have "Math_min (Num 35) (js_mult (vec_mag a) (Num 0.08)) = Num (min 35 (m * 0.08))"
      by (simp add: min_def)
    then show ?thesis by simp
  qed
qed

lemma vec_unit_in_range:
  assumes "vec_mag a = Num m" and "m \<noteq> 0"
  shows "vec_unit a = \<lparr>jx = Num (x a / m), jy = Num (y a / m)\<rparr>"
  using assms by (simp add: vec_unit_def Let_def)

lemma vec_unit_zero_mag:
  assumes "vec_mag a = Num 0 \<or> vec_mag a = PosInfinity"
  shows "vec_unit a = \<lparr>jx = Num 0, jy = Num 0\<rparr>"
  using assms by (auto simp: vec_unit_def Let_def)

lemma mag_zero: "vec_mag \<lparr>x = 0, y = 0\<rparr> = Num 0"
  by (simp add: vec_mag_def dbl_zero)

lemma mag_3_4: "vec_mag \<lparr>x = 3, y = 4\<rparr> = Num 5"
proof -
  have "sqrt (5 * 5) = (5 :: real)" by (simp del: real_sqrt_eq_iff)
  then have "sqrt 25 = (5 :: real)" by simp
  then show ?thesis using vec_mag_in_range [of "\<lparr>x = 3, y = 4\<rparr>"] by simp
qed

lemma mag_underflow: "vec_mag \<lparr>x = 1 / 2 ^ 600, y = 0\<rparr> = Num 0"
proof -
  have "((1 :: real) / 2 ^ 600) * (1 / 2 ^ 600) = 1 / 2 ^ 1200"
    by (simp add: power_add [symmetric])
  moreover have "(1 :: real) / 2 ^ 1200 \<le> 1 / 2 ^ 1075"
    by (simp add: frac_le)
  ultimately have "dbl ((1 / 2 ^ 600) * (1 / 2 ^ 600)) = Num 0"
    using dbl_nonneg [of "(1 / 2 ^ 600) * (1 / 2 ^ 600)"] by auto
  then show ?thesis by (simp add: vec_mag_def dbl_zero)
qed

lemma mag_overflow: "vec_mag \<lparr>x = 2 ^ 600, y = 0\<rparr> = PosInfinity"
proof -
  have "(2 :: real) ^ 600 * 2 ^ 600 = 2 ^ 1200" by (simp add: power_add [symmetric])
  moreover have "(2 :: real) ^ 1024 - 2 ^ 970 \<le> 2 ^ 1200" by simp
  ultimately have "dbl (2 ^ 600 * 2 ^ 600) = PosInfinity"
    using dbl_nonneg [of "2 ^ 600 * 2 ^ 600 :: real"] by auto
  then show ?thesis by (simp add: vec_mag_def dbl_zero)
qed

text \<open>
  C9.  \<open>vec.unit\<close> is total and never divides by zero: at every vector both
  coordinates of its result are finite numbers, whereas a quotient with a zero divisor
  is \<open>NaN\<close> or infinite.  If the magnitude \<open>vec.mag\<close> computes is \<open>0\<close>, which it also
  is for a non-zero vector whose squares are below the range of a double, the result
  is the zero vector; otherwise it is the vector divided by that magnitude, which is
  again the zero vector when the magnitude is infinite.  The magnitude is never
  \<open>NaN\<close>.  So \<open>setMag\<close> with a finite length returns finite coordinates at every
  vector, and the zero vector at the zero vector.
\<close>

theorem vec_unit_total:
  "(\<exists>u v. vec_unit a = \<lparr>jx = Num u, jy = Num v\<rparr>) \<and>
   (vec_mag a = Num 0 \<longrightarrow> vec_unit a = \<lparr>jx = Num 0, jy = Num 0\<rparr>) \<and>
   (\<forall>m. vec_mag a = Num m \<and> m \<noteq> 0 \<longrightarrow>
      vec_unit a = \<lparr>jx = Num (x a / m), jy = Num (y a / m)\<rparr>) \<and>
   (vec_mag a = PosInfinity \<longrightarrow> vec_unit a = \<lparr>jx = Num 0, jy = Num 0\<rparr>) \<and>
   (vec_mag a = PosInfinity \<or> (\<exists>m. vec_mag a = Num m \<and> 0 \<le> m)) \<and>
   (\<exists>u v. vec_setMag a (Num s) = \<lparr>jx = Num u, jy = Num v\<rparr>) \<and>
   vec_setMag \<lparr>x = 0, y = 0\<rparr> (Num s) = \<lparr>jx = Num 0, jy = Num 0\<rparr>"
proof (intro conjI allI impI)
  show "\<exists>u v. vec_unit a = \<lparr>jx = Num u, jy = Num v\<rparr>" by (rule vec_unit_Num)
  show "vec_mag a = Num 0 \<Longrightarrow> vec_unit a = \<lparr>jx = Num 0, jy = Num 0\<rparr>"
    by (simp add: vec_unit_zero_mag)
  show "vec_mag a = Num m \<and> m \<noteq> 0 \<Longrightarrow>
          vec_unit a = \<lparr>jx = Num (x a / m), jy = Num (y a / m)\<rparr>" for m
    by (simp add: vec_unit_in_range)
  show "vec_mag a = PosInfinity \<Longrightarrow> vec_unit a = \<lparr>jx = Num 0, jy = Num 0\<rparr>"
    by (simp add: vec_unit_zero_mag)
  show "vec_mag a = PosInfinity \<or> (\<exists>m. vec_mag a = Num m \<and> 0 \<le> m)"
    using vec_mag_cases [of a] by blast
  show "\<exists>u v. vec_setMag a (Num s) = \<lparr>jx = Num u, jy = Num v\<rparr>"
    using vec_unit_Num [of a] by (auto simp: vec_setMag_def vec_mult_js_def)
  show "vec_setMag \<lparr>x = 0, y = 0\<rparr> (Num s) = \<lparr>jx = Num 0, jy = Num 0\<rparr>"
    by (simp add: vec_setMag_def vec_mult_js_def vec_unit_zero_mag mag_zero)
qed

theorem vec_unit_total_witness:
  "vec_mag \<lparr>x = 0, y = 0\<rparr> = Num 0 \<and>
   vec_unit \<lparr>x = 0, y = 0\<rparr> = \<lparr>jx = Num 0, jy = Num 0\<rparr> \<and>
   vec_mag \<lparr>x = 3, y = 4\<rparr> = Num 5 \<and> (5 :: real) \<noteq> 0 \<and>
   vec_unit \<lparr>x = 3, y = 4\<rparr> = \<lparr>jx = Num (3 / 5), jy = Num (4 / 5)\<rparr> \<and>
   vec_mag \<lparr>x = 1 / 2 ^ 600, y = 0\<rparr> = Num 0 \<and>
   vec_unit \<lparr>x = 1 / 2 ^ 600, y = 0\<rparr> = \<lparr>jx = Num 0, jy = Num 0\<rparr> \<and>
   vec_mag \<lparr>x = 2 ^ 600, y = 0\<rparr> = PosInfinity \<and>
   vec_unit \<lparr>x = 2 ^ 600, y = 0\<rparr> = \<lparr>jx = Num 0, jy = Num 0\<rparr>"
proof -
  have a: "vec_unit \<lparr>x = 0, y = 0\<rparr> = \<lparr>jx = Num 0, jy = Num 0\<rparr>"
    using vec_unit_total [of "\<lparr>x = 0, y = 0\<rparr>"] mag_zero by blast
  have "vec_unit \<lparr>x = 3, y = 4\<rparr>
          = \<lparr>jx = Num (x \<lparr>x = 3, y = 4\<rparr> / 5), jy = Num (y \<lparr>x = 3, y = 4\<rparr> / 5)\<rparr>"
    using vec_unit_total [of "\<lparr>x = 3, y = 4\<rparr>"] mag_3_4 by simp
  then have b: "vec_unit \<lparr>x = 3, y = 4\<rparr> = \<lparr>jx = Num (3 / 5), jy = Num (4 / 5)\<rparr>"
    by simp
  have c: "vec_unit \<lparr>x = 1 / 2 ^ 600, y = 0\<rparr> = \<lparr>jx = Num 0, jy = Num 0\<rparr>"
    using vec_unit_total [of "\<lparr>x = 1 / 2 ^ 600, y = 0\<rparr>"] mag_underflow by blast
  have d: "vec_unit \<lparr>x = 2 ^ 600, y = 0\<rparr> = \<lparr>jx = Num 0, jy = Num 0\<rparr>"
    using vec_unit_total [of "\<lparr>x = 2 ^ 600, y = 0\<rparr>"] mag_overflow by blast
  show ?thesis using a b c d mag_zero mag_3_4 mag_underflow mag_overflow by simp
qed

section \<open>The Gaussian sampler\<close>

lemma accepted_iff: "accepted u v \<longleftrightarrow> \<not> (u * u + v * v \<ge> 1 \<or> u * u + v * v = 0)"
proof -
  have sq: "0 \<le> u * u" "0 \<le> v * v" by simp_all
  have "w * w < 1 \<Longrightarrow> - 1 < w \<and> w < 1" for w :: real
    using abs_square_less_1 [of w] by (simp add: power2_eq_square abs_less_iff)
  then show ?thesis
    using sq unfolding accepted_def by (smt (verit, best))
qed

lemma gaussRandom_step:
  "gaussRandom g =
     (if accepted (pair_u g 0) (pair_v g 0)
      then Some (boxMuller (pair_u g 0) (pair_v g 0), stl (stl g))
      else gaussRandom (stl (stl g)))"
  by (subst gaussRandom.simps)
     (simp add: Math_random_def Let_def accepted_iff pair_u_def pair_v_def boxMuller_def)

lemma pair_shift:
  "pair_u (stl (stl g)) k = pair_u g (Suc k)" "pair_v (stl (stl g)) k = pair_v g (Suc k)"
  by (simp_all add: pair_u_def pair_v_def)

lemma gaussRandom_first:
  "accepted (pair_u g k) (pair_v g k) \<Longrightarrow>
   (\<forall>j<k. \<not> accepted (pair_u g j) (pair_v g j)) \<Longrightarrow>
   gaussRandom g = Some (boxMuller (pair_u g k) (pair_v g k), sdrop (2 * k + 2) g)"
proof (induction k arbitrary: g)
  case 0
  then show ?case by (subst gaussRandom_step) simp
next
  case (Suc k)
  have rej: "\<not> accepted (pair_u g 0) (pair_v g 0)" using Suc.prems(2) by blast
  have "gaussRandom (stl (stl g)) =
          Some (boxMuller (pair_u (stl (stl g)) k) (pair_v (stl (stl g)) k),
                sdrop (2 * k + 2) (stl (stl g)))"
    using Suc.prems by (intro Suc.IH) (auto simp: pair_shift)
  then show ?case
    using rej by (subst gaussRandom_step) (simp add: pair_shift)
qed

lemma gaussRandom_least:
  assumes "accepted (pair_u g k) (pair_v g k)"
  shows "gaussRandom g =
           Some (boxMuller (pair_u g (LEAST i. accepted (pair_u g i) (pair_v g i)))
                           (pair_v g (LEAST i. accepted (pair_u g i) (pair_v g i))),
                 sdrop (2 * (LEAST i. accepted (pair_u g i) (pair_v g i)) + 2) g)"
proof -
  define j where "j = (LEAST i. accepted (pair_u g i) (pair_v g i))"
  have "accepted (pair_u g j) (pair_v g j)"
    unfolding j_def using assms by (rule LeastI)
  moreover have "\<forall>i<j. \<not> accepted (pair_u g i) (pair_v g i)"
    unfolding j_def using not_less_Least by blast
  ultimately show ?thesis unfolding j_def [symmetric] by (rule gaussRandom_first)
qed

text \<open>
  C8.  The rejection loop terminates: on every stream of draws that at some index \<open>k\<close>
  yields a pair \<open>(u, v)\<close> in the open square with \<open>0 < u\<^sup>2 + v\<^sup>2 < 1\<close>, \<open>gaussRandom\<close>
  returns \<open>u \<sqdot> sqrt (-2 \<sqdot> ln s / s)\<close> formed from the first such pair, however many
  pairs were rejected before it, and leaves the stream just behind that pair.
\<close>

theorem gaussRandom_terminates:
  assumes "accepted (pair_u g k) (pair_v g k)"
  defines "j \<equiv> (LEAST i. accepted (pair_u g i) (pair_v g i))"
  shows "j \<le> k \<and> accepted (pair_u g j) (pair_v g j) \<and>
         (\<forall>i<j. \<not> accepted (pair_u g i) (pair_v g i)) \<and>
         gaussRandom g =
           Some (pair_u g j * sqrt (- 2 * ln (pair_u g j * pair_u g j + pair_v g j * pair_v g j)
                                     / (pair_u g j * pair_u g j + pair_v g j * pair_v g j)),
                 sdrop (2 * j + 2) g)"
proof (intro conjI)
  show "j \<le> k" unfolding j_def using assms(1) by (rule Least_le)
  show "accepted (pair_u g j) (pair_v g j)"
    unfolding j_def using assms(1) by (rule LeastI)
  show "\<forall>i<j. \<not> accepted (pair_u g i) (pair_v g i)"
    unfolding j_def using not_less_Least by blast
  show "gaussRandom g =
           Some (pair_u g j * sqrt (- 2 * ln (pair_u g j * pair_u g j + pair_v g j * pair_v g j)
                                     / (pair_u g j * pair_u g j + pair_v g j * pair_v g j)),
                 sdrop (2 * j + 2) g)"
    using gaussRandom_least [OF assms(1)] unfolding j_def boxMuller_def Let_def .
qed

theorem gaussRandom_terminates_witness:
  "accepted (pair_u (1/2 ## 1/2 ## sconst (5/8)) 1) (pair_v (1/2 ## 1/2 ## sconst (5/8)) 1) \<and>
   \<not> accepted (pair_u (1/2 ## 1/2 ## sconst (5/8)) 0) (pair_v (1/2 ## 1/2 ## sconst (5/8)) 0) \<and>
   gaussRandom (1/2 ## 1/2 ## sconst (5/8))
     = Some (1/4 * sqrt (- 2 * ln (1/8) / (1/8)), sconst (5/8))"
proof -
  define g :: rng where "g = 1/2 ## 1/2 ## sconst (5/8)"
  define j where "j = (LEAST i. accepted (pair_u g i) (pair_v g i))"
  have a1: "accepted (pair_u g 1) (pair_v g 1)"
    by (simp add: g_def pair_u_def pair_v_def accepted_def eval_nat_numeral)
  have r0: "\<not> accepted (pair_u g 0) (pair_v g 0)"
    by (simp add: g_def pair_u_def pair_v_def accepted_def eval_nat_numeral)
  note t = gaussRandom_terminates [OF a1, folded j_def]
  have "j \<le> 1" "accepted (pair_u g j) (pair_v g j)" using t by blast+
  then have j1: "j = 1" using r0 by (cases "j = 0") auto
  have "gaussRandom g = Some (1/4 * sqrt (- 2 * ln (1/8) / (1/8)), sconst (5/8))"
    using t unfolding j1 by (simp add: g_def pair_u_def pair_v_def eval_nat_numeral)
  then show ?thesis using a1 r0 unfolding g_def by blast
qed

section \<open>Path generation\<close>

lemma iterations_Suc:
  assumes "real i \<le> b"
  shows "iterations (Num b) i = Suc (iterations (Num b) (Suc i))"
proof -
  have "int i \<le> \<lfloor>b\<rfloor>" using assms by (simp add: le_floor_iff)
  then have ile: "i \<le> nat \<lfloor>b\<rfloor>" by linarith
  show ?thesis
  proof (cases "real (Suc i) \<le> b")
    case True
    then have "int (Suc i) \<le> \<lfloor>b\<rfloor>" by (simp add: le_floor_iff)
    then have "Suc i \<le> nat \<lfloor>b\<rfloor>" by linarith
    then show ?thesis using True assms by (simp add: iterations_def)
  next
    case False
    then have "b < of_int (int i + 1)" by simp
    then have "\<lfloor>b\<rfloor> < int i + 1" by (simp only: floor_less_iff)
    then have "nat \<lfloor>b\<rfloor> = i" using ile by linarith
    then show ?thesis using False assms by (simp add: iterations_def)
  qed
qed

lemma iterations_zero: "iterations (Num b) i = 0 \<longleftrightarrow> \<not> real i \<le> b"
proof (cases "real i \<le> b")
  case True
  then show ?thesis using iterations_Suc [OF True] by simp
next
  case False
  then show ?thesis by (simp add: iterations_def)
qed

lemma fair_sdrop: "fair g \<Longrightarrow> fair (sdrop n g)"
  unfolding fair_def by simp

lemma fair_stl: "fair g \<Longrightarrow> fair (stl g)"
  using fair_sdrop [of g 1] by simp

lemma rand_eq: "rand lo hi g = (shd g * (hi - lo) + lo, stl g)"
  by (simp add: rand_def Math_random_def)

lemma gaussRandom_fair:
  assumes "fair g"
  shows "\<exists>v n. gaussRandom g = Some (v, sdrop n g)"
proof -
  from assms obtain k where "accepted (pair_u g k) (pair_v g k)"
    unfolding fair_def by (metis sdrop.simps(1))
  from gaussRandom_least [OF this] show ?thesis by blast
qed

lemma gauss_fair:
  assumes "fair g"
  shows "\<exists>v n. gauss m sd g = Some (v, sdrop n g)"
  using gaussRandom_fair [OF assms] unfolding gauss_def by auto

lemma pathStep_fair:
  assumes "fair g"
  shows "\<exists>p n. pathStep from cp1 cp2 to tr nb i g = Some (p, sdrop n g)"
proof -
  define t where "t = num_of (js_div (Num (real i)) nb)"
  obtain jitterX n1 where 1: "gauss 0 (tr * (1 - t ^ 2)) g = Some (jitterX, sdrop n1 g)"
    using gauss_fair [OF assms] by blast
  obtain jitterY n2 where
    2: "gauss 0 (tr * (1 - t ^ 2)) (sdrop n1 g) = Some (jitterY, sdrop n2 (sdrop n1 g))"
    using gauss_fair [OF fair_sdrop [OF assms]] by blast
  show ?thesis
    unfolding pathStep_def Let_def t_def [symmetric]
    by (simp add: 1 2 rand_eq) (metis sdrop.simps(2) sdrop_add sdrop_stl)
qed

lemma pathLoop_done:
  "\<not> js_le (Num (real i)) nb \<Longrightarrow> pathLoop from cp1 cp2 to tr nb i points g = Some (points, g)"
  by (subst pathLoop.simps) simp

lemma pathLoop_step:
  assumes "js_le (Num (real i)) nb"
    and "pathStep from cp1 cp2 to tr nb i g = Some (p, g')"
    and "length points \<noteq> 2 ^ 32 - 1"
  shows "pathLoop from cp1 cp2 to tr nb i points g
           = pathLoop from cp1 cp2 to tr nb (Suc i) (points @ [p]) g'"
  using assms by (subst pathLoop.simps) simp

lemma pathLoop_fair:
  assumes "fair g" and "length points = i" and "b < 2 ^ 32 - 1"
  shows "\<exists>pts n. pathLoop from cp1 cp2 to tr (Num b) i points g = Some (points @ pts, sdrop n g)
      \<and> length pts = iterations (Num b) i"
  using assms
proof (induction "iterations (Num b) i" arbitrary: i points g)
  case 0
  then have "\<not> real i \<le> b" by (simp add: iterations_zero)
  then have "pathLoop from cp1 cp2 to tr (Num b) i points g = Some (points, g)"
    by (simp add: pathLoop_done)
  then show ?case using 0(1) by (metis append_Nil2 list.size(3) sdrop.simps(1))
next
  case (Suc k)
  then have le: "real i \<le> b" using iterations_zero [of b i] by simp
  then have k: "iterations (Num b) (Suc i) = k"
    using iterations_Suc [OF le] Suc(2) by simp
  have "real i < 2 ^ 32 - 1" using le Suc.prems(3) by simp
  then have "real i < real (2 ^ 32 - 1)" by simp
  then have lim: "length points \<noteq> 2 ^ 32 - 1" using Suc.prems(2) by simp
  obtain p n where st: "pathStep from cp1 cp2 to tr (Num b) i g = Some (p, sdrop n g)"
    using pathStep_fair [OF Suc.prems(1)] by blast
  have "length (points @ [p]) = Suc i" using Suc.prems(2) by simp
  from Suc.hyps(1) [OF k [symmetric] fair_sdrop [OF Suc.prems(1)] this Suc.prems(3)]
  obtain pts n' where
    lp: "pathLoop from cp1 cp2 to tr (Num b) (Suc i) (points @ [p]) (sdrop n g)
           = Some ((points @ [p]) @ pts, sdrop n' (sdrop n g))"
    and len: "length pts = iterations (Num b) (Suc i)"
    by blast
  have "length (p # pts) = iterations (Num b) i"
    using len iterations_Suc [OF le] by simp
  moreover have "pathLoop from cp1 cp2 to tr (Num b) i points g
                   = Some (points @ (p # pts), sdrop (n + n') g)"
    using pathLoop_step [OF _ st lim] le lp by simp
  ultimately show ?case by blast
qed

lemma pathLoop_Num_result:
  assumes "pathLoop from cp1 cp2 to tr (Num b) i points g = Some (res, g')"
    and "length points = i"
  shows "\<exists>pts. res = points @ pts \<and> length pts = iterations (Num b) i"
  using assms
proof (induction "iterations (Num b) i" arbitrary: i points g)
  case 0
  then have "\<not> real i \<le> b" by (simp add: iterations_zero)
  then have "pathLoop from cp1 cp2 to tr (Num b) i points g = Some (points, g)"
    by (simp add: pathLoop_done)
  then show ?case using 0 by simp
next
  case (Suc k)
  then have le: "real i \<le> b" using iterations_zero [of b i] by simp
  then have k: "iterations (Num b) (Suc i) = k"
    using iterations_Suc [OF le] Suc(2) by simp
  from Suc.prems(1) le obtain p g1 where
    st: "pathStep from cp1 cp2 to tr (Num b) i g = Some (p, g1)"
    and lim: "length points \<noteq> 2 ^ 32 - 1"
    and lp: "pathLoop from cp1 cp2 to tr (Num b) (Suc i) (points @ [p]) g1 = Some (res, g')"
    by (subst (asm) pathLoop.simps) (auto split: option.splits if_splits)
  have "length (points @ [p]) = Suc i" using Suc.prems(2) by simp
  from Suc.hyps(1) [OF k [symmetric] lp this] obtain pts where
    r: "res = (points @ [p]) @ pts" and len: "length pts = iterations (Num b) (Suc i)"
    by blast
  have "length (p # pts) = iterations (Num b) i"
    using len iterations_Suc [OF le] by simp
  then show ?case using r by auto
qed

lemma pathLoop_limit:
  assumes "js_le (Num (2 ^ 32 - 1)) nb" and "length points = i" and "i \<le> 2 ^ 32 - 1"
  shows "pathLoop from cp1 cp2 to tr nb i points g = None"
  using assms(2,3)
proof (induction "2 ^ 32 - 1 - i" arbitrary: i points g)
  case 0
  then have i: "i = 2 ^ 32 - 1" by simp
  have "real i \<le> 2 ^ 32 - 1" unfolding i by simp
  then have le: "js_le (Num (real i)) nb" using assms(1) by (cases nb) auto
  show ?case
    using le 0(2) i by (subst pathLoop.simps) (auto split: option.splits)
next
  case (Suc k)
  then have i: "i < 2 ^ 32 - 1" by simp
  then have "real i \<le> real (2 ^ 32 - 1 :: nat)" by (simp only: of_nat_le_iff)
  then have "real i \<le> 2 ^ 32 - 1" by simp
  then have le: "js_le (Num (real i)) nb" using assms(1) by (cases nb) auto
  show ?case
  proof (cases "pathStep from cp1 cp2 to tr nb i g")
    case None
    then show ?thesis using le by (subst pathLoop.simps) simp
  next
    case (Some r)
    obtain p g1 where r: "r = (p, g1)" by (cases r)
    have "pathLoop from cp1 cp2 to tr nb (Suc i) (points @ [p]) g1 = None"
      using Suc.hyps(1) [of "Suc i" "points @ [p]" g1] Suc.hyps(2) Suc.prems i by simp
    then show ?thesis using le Some r by (subst pathLoop.simps) simp
  qed
qed

lemma pathLoop_result:
  assumes "pathLoop from cp1 cp2 to tr nb 0 [] g = Some (res, g')"
  shows "length res = iterations nb 0 \<and> nb \<noteq> PosInfinity"
proof (cases nb)
  case (Num b)
  then show ?thesis using pathLoop_Num_result [of "from" cp1 cp2 to tr b 0 "[]" g res g'] assms
    by auto
next
  case PosInfinity
  then have "pathLoop from cp1 cp2 to tr nb 0 [] g = None"
    by (intro pathLoop_limit) simp_all
  then show ?thesis using assms by simp
next
  case NegInfinity
  then show ?thesis using assms by (simp add: pathLoop_done iterations_def)
next
  case NaN
  then show ?thesis using assms by (simp add: pathLoop_done iterations_def)
qed

lemma makeCP_rng: "snd (makeCP s e d c sd g) = stl (stl g)"
  by (simp add: makeCP_def rand_eq Let_def split_beta)

lemma bezierControlPoints_rng: "snd (bezierControlPoints s e sp g) = sdrop 5 g"
  by (simp add: bezierControlPoints_def Math_random_def Let_def split_beta makeCP_rng
      eval_nat_numeral)

lemma baseSteps_rng: "\<exists>n. snd (baseSteps opts ft g) = sdrop n g"
proof (cases "js_truthy (js_or_num (steps opts) (Num 0))")
  case True
  then have "snd (baseSteps opts ft g) = sdrop 0 g"
    by (auto simp: baseSteps_def js_or_num_def split: option.splits if_splits)
  then show ?thesis by blast
next
  case False
  then have "snd (baseSteps opts ft g) = sdrop 1 g"
    by (auto simp: baseSteps_def js_or_num_def rand_eq split: option.splits if_splits)
  then show ?thesis by blast
qed

text \<open>
  The step count is never \<open>0\<close>, and the quotient \<^verbatim>\<open>i / baseSteps\<close> of an iteration
  the loop enters is a finite number.
\<close>

lemma fittsSteps_nonzero: "fittsSteps ft r \<noteq> Num 0"
proof -
  have "Math_max (Num 15) v \<noteq> Num 0" for v by (cases v) simp_all
  then show ?thesis unfolding fittsSteps_def .
qed

lemma baseSteps_nonzero: "fst (baseSteps opts ft g) \<noteq> Num 0"
proof (cases "steps opts")
  case None
  then show ?thesis by (simp add: baseSteps_def split_beta fittsSteps_nonzero)
next
  case (Some n)
  then show ?thesis
    by (cases "js_truthy n") (auto simp: baseSteps_def split_beta fittsSteps_nonzero)
qed

lemma step_quotient_Num:
  assumes "js_le (Num (real i)) n" and "n \<noteq> Num 0"
  shows "\<exists>t. js_div (Num (real i)) n = Num t"
  using assms by (cases n) auto

lemma generatePath_near:
  "js_lt (vec_mag (vec_sub to from)) (Num 1) \<Longrightarrow>
     generatePath from to opts g = Some ([\<lparr>jx = Num (x to), jy = Num (y to), dt = 0\<rparr>], g)"
  by (simp add: generatePath_def)

lemma generatePath_far:
  assumes "\<not> js_lt (vec_mag (vec_sub to from)) (Num 1)"
  shows "generatePath from to opts g =
     (let bs = baseSteps opts
                (Math_log2 (js_add (ranged (js_div (vec_mag (vec_sub to from))
                                                   (js_or_num (targetWidth opts) (Num 50))))
                                   (Num 1))) g;
          cps = bezierControlPoints from to (spread opts) (snd bs)
      in case pathLoop from (fst (fst cps)) (snd (fst cps)) to (js_nullish (tremor opts) 1.2)
                (fst bs) 0 [] (snd cps) of
           None \<Rightarrow> None
         | Some (points, g3) \<Rightarrow>
             Some (snapLast points
                     \<lparr>jx = Num (of_int (round (x to))), jy = Num (of_int (round (y to))),
                      dt = shd g3 * (6 - 2) + 2\<rparr>, stl g3))"
  using assms
  by (simp add: generatePath_def Let_def split_beta rand_eq cong: option.case_cong)

lemma snapLast_props:
  "length (snapLast points v) = length points"
  "points \<noteq> [] \<Longrightarrow> last (snapLast points v) = v"
  by (simp_all add: snapLast_def last_list_update)

lemma generatePath_total:
  assumes "fair g" and "\<not> js_lt (vec_mag (vec_sub to from)) (Num 1)"
    and "stepCount from to opts g = Num b" and "b < 2 ^ 32 - 1"
  shows "\<exists>path n. generatePath from to opts g = Some (path, sdrop (Suc n) g) \<and>
           length path = iterations (Num b) 0 \<and>
           (path \<noteq> [] \<longrightarrow>
              last path = \<lparr>jx = Num (of_int (round (x to))), jy = Num (of_int (round (y to))),
                           dt = g !! n * 4 + 2\<rparr>)"
proof -
  define bs where "bs = baseSteps opts
                (Math_log2 (js_add (ranged (js_div (vec_mag (vec_sub to from))
                                                   (js_or_num (targetWidth opts) (Num 50))))
                                   (Num 1))) g"
  define cps where "cps = bezierControlPoints from to (spread opts) (snd bs)"
  define v where "v = (\<lambda>n. \<lparr>jx = Num (of_int (round (x to))), jy = Num (of_int (round (y to))),
                             dt = g !! n * 4 + 2\<rparr>)"
  have nb: "fst bs = Num b" using assms(3) by (simp add: stepCount_def bs_def)
  obtain n1 where "snd bs = sdrop n1 g" unfolding bs_def using baseSteps_rng by blast
  then have g2: "snd cps = sdrop (n1 + 5) g"
    unfolding cps_def by (simp add: bezierControlPoints_rng)
  have "fair (snd cps)" unfolding g2 using assms(1) by (rule fair_sdrop)
  from pathLoop_fair [OF this _ assms(4), of "[]" 0 "from" "fst (fst cps)" "snd (fst cps)" to
      "js_nullish (tremor opts) 1.2"]
  obtain pts n where lp: "pathLoop from (fst (fst cps)) (snd (fst cps)) to
                (js_nullish (tremor opts) 1.2) (fst bs) 0 [] (snd cps)
                  = Some (pts, sdrop n (snd cps))"
    and len: "length pts = iterations (Num b) 0"
    unfolding nb by auto
  have "generatePath from to opts g
          = Some (snapLast pts (v (n1 + 5 + n)), sdrop (Suc (n1 + 5 + n)) g)"
    using lp unfolding g2
    by (simp add: generatePath_far [OF assms(2)] bs_def [symmetric] cps_def [symmetric]
          Let_def g2 v_def)
  moreover have "length (snapLast pts (v (n1 + 5 + n))) = iterations (Num b) 0"
    using len by (simp add: snapLast_props)
  moreover have "snapLast pts (v (n1 + 5 + n)) \<noteq> [] \<longrightarrow>
                   last (snapLast pts (v (n1 + 5 + n))) = v (n1 + 5 + n)"
    by (auto simp: snapLast_def last_list_update)
  ultimately show ?thesis unfolding v_def by blast
qed

lemma generatePath_result:
  assumes "\<not> js_lt (vec_mag (vec_sub to from)) (Num 1)"
    and "generatePath from to opts g = Some (path, g')"
  shows "\<exists>g3. g' = stl g3 \<and> length path = iterations (stepCount from to opts g) 0 \<and>
           stepCount from to opts g \<noteq> PosInfinity \<and>
           (path \<noteq> [] \<longrightarrow>
              last path = \<lparr>jx = Num (of_int (round (x to))), jy = Num (of_int (round (y to))),
                           dt = shd g3 * 4 + 2\<rparr>)"
proof -
  define bs where "bs = baseSteps opts
                (Math_log2 (js_add (ranged (js_div (vec_mag (vec_sub to from))
                                                   (js_or_num (targetWidth opts) (Num 50))))
                                   (Num 1))) g"
  define cps where "cps = bezierControlPoints from to (spread opts) (snd bs)"
  from assms(2) obtain points g3 where
    lp: "pathLoop from (fst (fst cps)) (snd (fst cps)) to (js_nullish (tremor opts) 1.2)
                (fst bs) 0 [] (snd cps) = Some (points, g3)"
    and path: "path = snapLast points
                 \<lparr>jx = Num (of_int (round (x to))), jy = Num (of_int (round (y to))),
                  dt = shd g3 * (6 - 2) + 2\<rparr>"
    and g': "g' = stl g3"
    by (auto simp: generatePath_far [OF assms(1)] bs_def [symmetric] cps_def [symmetric] Let_def
             split: option.splits)
  from pathLoop_result [OF lp] have "length points = iterations (fst bs) 0"
    and "fst bs \<noteq> PosInfinity" by auto
  then show ?thesis
    using path g' snapLast_props [of points]
    by (auto simp: stepCount_def bs_def snapLast_def)
qed

lemma generatePath_no_return:
  assumes "\<not> js_lt (vec_mag (vec_sub to from)) (Num 1)"
    and "js_le (Num (2 ^ 32 - 1)) (stepCount from to opts g)"
  shows "generatePath from to opts g = None"
proof -
  define bs where "bs = baseSteps opts
                (Math_log2 (js_add (ranged (js_div (vec_mag (vec_sub to from))
                                                   (js_or_num (targetWidth opts) (Num 50))))
                                   (Num 1))) g"
  define cps where "cps = bezierControlPoints from to (spread opts) (snd bs)"
  have "js_le (Num (2 ^ 32 - 1)) (fst bs)" using assms(2) by (simp add: stepCount_def bs_def)
  then have "pathLoop from (fst (fst cps)) (snd (fst cps)) to (js_nullish (tremor opts) 1.2)
                (fst bs) 0 [] (snd cps) = None"
    by (intro pathLoop_limit) simp_all
  then show ?thesis
    by (simp add: generatePath_far [OF assms(1)] bs_def [symmetric] cps_def [symmetric] Let_def)
qed

lemma generatePath_not_entered:
  assumes "\<not> js_lt (vec_mag (vec_sub to from)) (Num 1)"
    and "\<not> js_le (Num 0) (stepCount from to opts g)"
  shows "\<exists>g'. generatePath from to opts g = Some ([], g')"
proof -
  define bs where "bs = baseSteps opts
                (Math_log2 (js_add (ranged (js_div (vec_mag (vec_sub to from))
                                                   (js_or_num (targetWidth opts) (Num 50))))
                                   (Num 1))) g"
  define cps where "cps = bezierControlPoints from to (spread opts) (snd bs)"
  have "\<not> js_le (Num (real 0)) (fst bs)" using assms(2) by (simp add: stepCount_def bs_def)
  then have "pathLoop from (fst (fst cps)) (snd (fst cps)) to (js_nullish (tremor opts) 1.2)
                (fst bs) 0 [] (snd cps) = Some ([], snd cps)"
    by (rule pathLoop_done)
  then show ?thesis
    by (simp add: generatePath_far [OF assms(1)] bs_def [symmetric] cps_def [symmetric] Let_def
          snapLast_def)
qed

lemma sdrop_sconst: "sdrop n (sconst c) = sconst c"
  by simp

lemma fair_sconst: "accepted (c * 2 - 1) (c * 2 - 1) \<Longrightarrow> fair (sconst c)"
  by (simp add: fair_def pair_u_def pair_v_def)

lemma fair_five_eighths: "fair (sconst (5 / 8))"
  by (rule fair_sconst) (simp add: accepted_def)

section \<open>Bezier control points\<close>

lemma uniform_draws_snth: "uniform_draws g \<Longrightarrow> 0 \<le> g !! n \<and> g !! n < 1"
  unfolding uniform_draws_def using snth_sset [of g n] by blast

lemma uniform_draws_sdrop: "uniform_draws g \<Longrightarrow> uniform_draws (sdrop n g)"
  unfolding uniform_draws_def using sdrop_snth [of n g] by (metis snth_sset sset_range imageE)

lemma Math_max_Num: "Math_max (Num a) (Num b) = Num (max a b)"
  by (simp add: max_def)

lemma Math_min_Num: "Math_min (Num a) (Num b) = Num (min a b)"
  by (simp add: min_def)

lemma clampedSpread_Num:
  "\<exists>cs. Math_max (Num 2) (Math_min (js_mult (Num d) (Num 0.5))
                                   (js_or_num sp (js_mult (Num d) (Num 0.3)))) = Num cs
           \<and> 2 \<le> cs"
proof -
  have n: "\<exists>cs. Math_max (Num 2) (Num a) = Num cs \<and> 2 \<le> cs" for a
    unfolding Math_max_Num by simp
  define r where
    "r = Math_min (js_mult (Num d) (Num 0.5)) (js_or_num sp (js_mult (Num d) (Num 0.3)))"
  have "r \<noteq> NaN \<and> r \<noteq> PosInfinity"
  proof (cases sp)
    case None
    then show ?thesis by (simp add: r_def js_or_num_def)
  next
    case (Some v)
    then show ?thesis by (cases v) (simp_all add: r_def js_or_num_def)
  qed
  then show ?thesis unfolding r_def [symmetric] using n by (cases r) auto
qed

lemma makeCP_Num: "\<exists>c. fst (makeCP s e dir (Num cs) sd g) = jsvec_of c"
proof -
  obtain u v where "vec_unit (vec_perp dir) = \<lparr>jx = Num u, jy = Num v\<rparr>"
    using vec_unit_Num by blast
  then have "fst (makeCP s e dir (Num cs) sd g)
               = jsvec_of \<lparr>x = x (vec_lerp s e (fst (rand 0.2 0.8 g)))
                                + u * (cs * fst (rand 0.3 1.0 (stl g)) * sd),
                          y = y (vec_lerp s e (fst (rand 0.2 0.8 g)))
                                + v * (cs * fst (rand 0.3 1.0 (stl g)) * sd)\<rparr>"
    by (simp add: makeCP_def rand_eq Let_def split_beta vec_setMag_def vec_mult_js_def
          vec_add_js_def jsvec_of_def)
  then show ?thesis by blast
qed

lemma bezierControlPoints_Num:
  assumes "vec_mag (vec_sub e s) = Num d"
  shows "\<exists>c1 c2. fst (bezierControlPoints s e sp g) = (jsvec_of c1, jsvec_of c2)"
proof -
  obtain cs where cs: "Math_max (Num 2) (Math_min (js_mult (Num d) (Num 0.5))
                          (js_or_num sp (js_mult (Num d) (Num 0.3)))) = Num cs"
    using clampedSpread_Num by blast
  define side where "side = (if shd g > 0.5 then 1 else - 1 :: real)"
  define cpA where "cpA = fst (makeCP s e (vec_sub e s) (Num cs) side (stl g))"
  define cpB where "cpB = fst (makeCP s e (vec_sub e s) (Num cs) side (stl (stl (stl g))))"
  obtain c1 where c1: "cpA = jsvec_of c1" unfolding cpA_def using makeCP_Num by blast
  obtain c2 where c2: "cpB = jsvec_of c2" unfolding cpB_def using makeCP_Num by blast
  have "fst (bezierControlPoints s e sp g) = (cpA, cpB) \<or>
        fst (bezierControlPoints s e sp g) = (cpB, cpA)"
    unfolding bezierControlPoints_def Let_def split_beta assms cs
    by (simp add: Math_random_def makeCP_rng cpA_def cpB_def side_def)
  then show ?thesis unfolding c1 c2 by blast
qed
















lemma dbl_huge: "2 ^ 1024 \<le> a \<Longrightarrow> dbl a = PosInfinity"
proof -
  assume a: "2 ^ 1024 \<le> a"
  have "(1 :: real) / 2 ^ 1075 < 2 ^ 1024" by (rule less_le_trans [of _ 1]) simp_all
  then have "\<not> \<bar>a\<bar> \<le> 1 / 2 ^ 1075" using a by linarith
  moreover have "2 ^ 1024 - 2 ^ 970 \<le> a" using a by simp
  ultimately show ?thesis unfolding dbl_def by (simp only: if_True if_False)
qed


section \<open>The step count and the points of a path\<close>

lemma log2_11_10: "0 \<le> log 2 (11 / 10)" "log 2 (11 / 10) \<le> 1 / 5"
proof -
  show "0 \<le> log 2 (11 / 10)" by simp
  have "(11 / 10 :: real) ^ 5 \<le> 2" by (simp add: eval_nat_numeral)
  then have "log 2 ((11 / 10) ^ 5) \<le> log 2 2"
    by (subst log_le_cancel_iff) simp_all
  then have "5 * log 2 (11 / 10) \<le> 1"
    by (simp add: log_nat_power)
  then show "log 2 (11 / 10) \<le> 1 / 5" by simp
qed

lemma fitts_3_4: "round (log 2 (11 / 10) * 18 + 45 / 4) \<le> 15"
proof -
  have "log 2 (11 / 10) * 18 + 45 / 4 \<le> 15" using log2_11_10 by simp
  then have "round (log 2 (11 / 10) * 18 + 45 / 4) \<le> round (15 :: real)"
    by (rule round_mono)
  then show ?thesis by simp
qed

lemma far_3_4: "\<not> js_lt (vec_mag (vec_sub \<lparr>x = 3, y = 4\<rparr> \<lparr>x = 0, y = 0\<rparr>)) (Num 1)"
  by (simp add: vec_sub_def mag_3_4)

lemma quot_3_4:
  "ranged (js_div (vec_mag (vec_sub \<lparr>x = 3, y = 4\<rparr> \<lparr>x = 0, y = 0\<rparr>)) (Num 50)) = Num (1 / 10)"
proof -
  have "dbl (1 / 10) = Num (1 / 10)"
    by (rule dbl_id) (simp_all add: less_le_trans [of _ "1 / 2"])
  then show ?thesis by (simp add: vec_sub_def mag_3_4)
qed

lemma stepCount_3_4:
  assumes "steps opts = None \<or> steps opts = Some (Num 0) \<or> steps opts = Some NaN"
    and "targetWidth opts = None \<or> targetWidth opts = Some (Num 0) \<or>
         targetWidth opts = Some NaN"
  shows "stepCount \<lparr>x = 0, y = 0\<rparr> \<lparr>x = 3, y = 4\<rparr> opts (sconst (5 / 8)) = Num (real 15)"
proof -
  have tw: "js_or_num (targetWidth opts) (Num 50) = Num 50"
    using assms(2) by (auto simp: js_or_num_def)
  have "fst (baseSteps opts (Math_log2 (js_add (Num (1 / 10)) (Num 1))) (sconst (5 / 8)))
          = Num 15"
    using assms(1) fitts_3_4 by (auto simp: baseSteps_def rand_eq fittsSteps_def)
  then show ?thesis unfolding stepCount_def tw quot_3_4 by simp
qed

text \<open>
  C1.  That the last point of every path is the rounded target fails in the degenerate
  case, where the path is the target as given.  For \<open>from = (0, 0)\<close> and
  \<open>to = (1/4, 0)\<close> the distance is below 1 and the path returned is the single point
  \<open>(1/4, 0)\<close>, whereas the rounded target is \<open>(0, 0)\<close>.
\<close>

theorem generatePath_degenerate_unrounded:
  "generatePath \<lparr>x = 0, y = 0\<rparr> \<lparr>x = 1 / 4, y = 0\<rparr> opts g
     = Some ([\<lparr>jx = Num (1 / 4), jy = Num 0, dt = 0\<rparr>], g) \<and>
   jx (last [\<lparr>jx = Num (1 / 4), jy = Num 0, dt = 0\<rparr>])
     \<noteq> Num (of_int (round (x \<lparr>x = 1 / 4, y = 0 :: real\<rparr>)))"
proof -
  have "sqrt ((1 / 4) ^ 2) = (1 / 4 :: real)" by (subst real_sqrt_abs) simp
  moreover have "((1 :: real) / 4) ^ 2 = 1 / 16" by (simp add: power2_eq_square)
  ultimately have "sqrt (1 / 16) = (1 / 4 :: real)" by (simp only:)
  moreover have "(1 :: real) / 2 ^ 1075 < 1 / 16"
    by (rule less_le_trans [of _ "1 / 2 ^ 5"]) (simp_all add: frac_less2)
  ultimately have "vec_mag \<lparr>x = 1 / 4, y = 0\<rparr> = Num (1 / 4)"
    using vec_mag_in_range [of "\<lparr>x = 1 / 4, y = 0\<rparr>"] by simp
  then have "js_lt (vec_mag (vec_sub \<lparr>x = 1 / 4, y = 0\<rparr> \<lparr>x = 0, y = 0\<rparr>)) (Num 1)"
    by (simp add: vec_sub_def)
  then have "generatePath \<lparr>x = 0, y = 0\<rparr> \<lparr>x = 1 / 4, y = 0\<rparr> opts g
     = Some ([\<lparr>jx = Num (1 / 4), jy = Num 0, dt = 0\<rparr>], g)"
    by (simp add: generatePath_near)
  moreover have "round (1 / 4 :: real) = 0" by (simp add: round_def)
  ultimately show ?thesis by simp
qed

lemma iterations_nat: "iterations (Num (real m)) 0 = m + 1"
  by (simp add: iterations_def)

lemma fittsSteps_nat: "\<exists>m. max 15 (real_of_int (round v)) = real m \<and> 15 \<le> m"
proof -
  have "max 15 (real_of_int (round v)) = real_of_int (max 15 (round v))" by simp
  moreover have "real_of_int (max 15 (round v)) = real (nat (max 15 (round v)))" by simp
  moreover have "15 \<le> nat (max 15 (round v))" by simp
  ultimately show ?thesis by metis
qed

lemma ranged_Num_bound:
  assumes "ranged v = Num q"
  shows "\<bar>q\<bar> < 2 ^ 1024"
proof (cases v)
  case (Num a)
  have "(0 :: real) < 2 ^ 1024" by simp
  moreover have "(2 :: real) ^ 1024 - 2 ^ 970 < 2 ^ 1024" by simp
  ultimately show ?thesis using dbl_cases [of a] assms Num by auto
qed (use assms in simp_all)

lemma log2_bound:
  assumes "- 1 < q" and "q < 2 ^ 1024"
  shows "log 2 (q + 1) < 1025"
proof -
  have "q + 1 < 2 ^ 1024 + 2 ^ 1024" using assms(2) by (simp add: add_strict_mono)
  also have "\<dots> = (2 :: real) ^ 1025" by simp
  finally have "q + 1 < 2 ^ 1025" .
  moreover have "0 < q + 1" using assms(1) by simp
  moreover have "(0 :: real) < 2 ^ 1025" by (rule zero_less_power) simp
  ultimately have "log 2 (q + 1) < log 2 (2 ^ 1025)"
    by (subst log_less_cancel_iff) (simp_all only: one_less_numeral_iff semiring_norm)
  moreover have "log 2 (2 ^ 1025) = real 1025 * log 2 2"
    by (rule log_nat_power) simp
  moreover have "log 2 2 = (1 :: real)" by simp
  ultimately have "log 2 (q + 1) < real 1025 * 1" by (simp only:)
  then show ?thesis by simp
qed

lemma fitts_bound:
  fixes f r :: real
  assumes "f < 1025" and "r < 15"
  shows "max 15 (round (f * 18 + r)) \<le> 18465"
proof -
  have "f * 18 + r \<le> 18465" using assms by simp
  then have "round (f * 18 + r) \<le> round (18465 :: real)" by (rule round_mono)
  then show ?thesis by simp
qed

text \<open>
  C5, as amended.  For a move whose distance, as \<open>vec.mag\<close> computes it, is not below
  1, the step count of \<open>generatePath\<close> is \<open>config.steps\<close> when that is provided and
  truthy, which \<open>0\<close> and \<open>NaN\<close> are not, and otherwise
  \<open>max(15, round(log2(distance / targetWidth + 1) \<sqdot> 18 + uniform(5, 15)))\<close>, where
  \<open>targetWidth\<close> is \<open>config.targetWidth\<close> when that is provided and truthy, and 50
  otherwise.  When the quotient \<open>distance / targetWidth\<close> is a number above \<open>-1\<close>, the
  formula gives a natural number of at least 15, and of at most 18465 for a draw in
  \<open>[0, 1)\<close>; when the quotient is infinite, as it is when it overflows, the formula
  gives \<open>Infinity\<close>.  When the step count is a natural number \<open>m\<close> below \<open>2\<^sup>3\<^sup>2 - 1\<close>,
  every path the function returns has \<open>m + 1\<close> points, and on a fair stream of draws
  it returns one.  When the step count is \<open>2\<^sup>3\<^sup>2 - 1\<close> or more, \<open>Infinity\<close> included,
  the call returns no path.
\<close>

theorem generatePath_step_count:
  fixes opts :: opts and g :: rng
  assumes far: "\<not> js_lt (vec_mag (vec_sub to from)) (Num 1)"
  defines "tw \<equiv> (case targetWidth opts of None \<Rightarrow> Num 50
                  | Some w \<Rightarrow> if js_truthy w then w else Num 50)"
  defines "quot \<equiv> ranged (js_div (vec_mag (vec_sub to from)) tw)"
  defines "fitts \<equiv> fittsSteps (Math_log2 (js_add quot (Num 1))) (fst (rand 5 15 g))"
  shows "stepCount from to opts g
           = (case steps opts of None \<Rightarrow> fitts
              | Some k \<Rightarrow> if js_truthy k then k else fitts) \<and>
         (\<forall>q. quot = Num q \<and> - 1 < q \<longrightarrow>
            fitts = Num (max 15 (real_of_int (round (log 2 (q + 1) * 18 + fst (rand 5 15 g))))) \<and>
            (\<exists>m\<ge>15. fitts = Num (real m) \<and> (0 \<le> shd g \<and> shd g < 1 \<longrightarrow> m \<le> 18465))) \<and>
         (quot = PosInfinity \<longrightarrow> fitts = PosInfinity) \<and>
         (\<forall>m. stepCount from to opts g = Num (real m) \<and> m < 2 ^ 32 - 1 \<longrightarrow>
            (\<forall>path g'. generatePath from to opts g = Some (path, g') \<longrightarrow> length path = m + 1) \<and>
            (fair g \<longrightarrow> (\<exists>path g'. generatePath from to opts g = Some (path, g') \<and>
                                    length path = m + 1))) \<and>
         (js_le (Num (2 ^ 32 - 1)) (stepCount from to opts g) \<longrightarrow>
            generatePath from to opts g = None)"
proof -
  have tw: "js_or_num (targetWidth opts) (Num 50) = tw"
    unfolding tw_def js_or_num_def by (simp split: option.splits)
  have sc: "stepCount from to opts g
           = (case steps opts of None \<Rightarrow> fitts
              | Some k \<Rightarrow> if js_truthy k then k else fitts)"
    unfolding stepCount_def tw baseSteps_def fitts_def quot_def
    by (simp add: split_beta split: option.splits)
  have fi: "fitts = Num (max 15 (real_of_int (round (log 2 (q + 1) * 18 + fst (rand 5 15 g)))))"
    if "quot = Num q" "- 1 < q" for q
    using that unfolding fitts_def by (simp add: fittsSteps_def Math_max_Num)
  have nat: "\<exists>m\<ge>15. fitts = Num (real m) \<and> (0 \<le> shd g \<and> shd g < 1 \<longrightarrow> m \<le> 18465)"
    if q: "quot = Num q" "- 1 < q" for q
  proof -
    define v where "v = log 2 (q + 1) * 18 + fst (rand 5 15 g)"
    define m where "m = nat (max 15 (round v))"
    have "max 15 (real_of_int (round v)) = real m" unfolding m_def by simp
    then have f: "fitts = Num (real m)" using fi [OF q] unfolding v_def by simp
    have m15: "15 \<le> m" unfolding m_def by simp
    have "m \<le> 18465" if "0 \<le> shd g \<and> shd g < 1"
    proof -
      have "\<bar>q\<bar> < 2 ^ 1024" using q(1) unfolding quot_def by (rule ranged_Num_bound)
      then have "q < 2 ^ 1024" by (rule abs_less_iff [THEN iffD1, THEN conjunct1])
      then have "log 2 (q + 1) < 1025" using q(2) by (intro log2_bound)
      moreover have "fst (rand 5 15 g) < 15" using that by (simp add: rand_eq)
      ultimately have "max 15 (round v) \<le> 18465" unfolding v_def by (rule fitts_bound)
      then show ?thesis unfolding m_def by simp
    qed
    then show ?thesis using f m15 by blast
  qed
  have inf: "fitts = PosInfinity" if "quot = PosInfinity"
    using that unfolding fitts_def by (simp add: fittsSteps_def)
  have len: "length path = m + 1"
    if "stepCount from to opts g = Num (real m)"
      "generatePath from to opts g = Some (path, g')" for m path g'
    using generatePath_result [OF far that(2)] that(1) by (auto simp: iterations_nat)
  have tot: "\<exists>path g'. generatePath from to opts g = Some (path, g') \<and> length path = m + 1"
    if "stepCount from to opts g = Num (real m)" "m < 2 ^ 32 - 1" "fair g" for m
  proof -
    have "real m < real (2 ^ 32 - 1)" using that(2) by (simp only: of_nat_less_iff)
    then have "real m < 2 ^ 32 - 1" by simp
    from generatePath_total [OF that(3) far that(1) this] show ?thesis
      by (auto simp: iterations_nat)
  qed
  have none: "generatePath from to opts g = None"
    if "js_le (Num (2 ^ 32 - 1)) (stepCount from to opts g)"
    using far that by (rule generatePath_no_return)
  show ?thesis using sc fi nat inf len tot none by blast
qed

lemma mag_90_120: "vec_mag (vec_sub \<lparr>x = 90, y = 120\<rparr> \<lparr>x = 0, y = 0\<rparr>) = Num 150"
proof -
  have "sqrt (150 ^ 2) = (150 :: real)" by (subst real_sqrt_abs) simp
  moreover have "(150 :: real) ^ 2 = 22500" by (simp add: power2_eq_square)
  ultimately have "sqrt 22500 = (150 :: real)" by (simp only:)
  then show ?thesis using vec_mag_in_range [of "\<lparr>x = 90, y = 120\<rparr>"] by (simp add: vec_sub_def)
qed

lemma dbl_moderate: "1 \<le> \<bar>a\<bar> \<Longrightarrow> \<bar>a\<bar> \<le> 2 ^ 32 \<Longrightarrow> dbl a = Num a"
proof (rule dbl_id)
  assume a: "1 \<le> \<bar>a\<bar>" "\<bar>a\<bar> \<le> 2 ^ 32"
  have "(1 :: real) / 2 ^ 1075 < 1" by simp
  then show "1 / 2 ^ 1075 < \<bar>a\<bar>" using a(1) by (rule less_le_trans)
  have "(2 :: real) ^ 32 < 2 ^ 1024 - 2 ^ 970" by simp
  then show "\<bar>a\<bar> < 2 ^ 1024 - 2 ^ 970" using a(2) by (rule le_less_trans [rotated])
qed

lemma log2_4: "log 2 4 = 2"
proof -
  have "log 2 (2 ^ 2) = real 2 * log 2 2" by (rule log_nat_power) simp
  then show ?thesis by simp
qed

lemma round_189_4: "round (189 / 4 :: real) = 47"
  by (simp add: round_def)

theorem generatePath_step_count_witness:
  "\<not> js_lt (vec_mag (vec_sub \<lparr>x = 90, y = 120\<rparr> \<lparr>x = 0, y = 0\<rparr>)) (Num 1) \<and>
   ranged (js_div (vec_mag (vec_sub \<lparr>x = 90, y = 120\<rparr> \<lparr>x = 0, y = 0\<rparr>)) (Num 50)) = Num 3 \<and>
   - 1 < (3 :: real) \<and> fair (sconst (5 / 8)) \<and>
   (47 :: nat) < 2 ^ 32 - 1 \<and> (20 :: nat) < 2 ^ 32 - 1 \<and> js_truthy (Num 20) \<and>
   stepCount \<lparr>x = 0, y = 0\<rparr> \<lparr>x = 90, y = 120\<rparr> noOpts (sconst (5 / 8)) = Num (real 47) \<and>
   (\<exists>path g'. generatePath \<lparr>x = 0, y = 0\<rparr> \<lparr>x = 90, y = 120\<rparr> noOpts (sconst (5 / 8))
                 = Some (path, g') \<and> length path = 48) \<and>
   stepCount \<lparr>x = 0, y = 0\<rparr> \<lparr>x = 90, y = 120\<rparr> (noOpts\<lparr>steps := Some (Num 20)\<rparr>)
     (sconst (5 / 8)) = Num (real 20) \<and>
   (\<exists>path g'. generatePath \<lparr>x = 0, y = 0\<rparr> \<lparr>x = 90, y = 120\<rparr> (noOpts\<lparr>steps := Some (Num 20)\<rparr>)
                 (sconst (5 / 8)) = Some (path, g') \<and> length path = 21)"
proof -
  have far: "\<not> js_lt (vec_mag (vec_sub \<lparr>x = 90, y = 120\<rparr> \<lparr>x = 0, y = 0\<rparr>)) (Num 1)"
    by (simp add: mag_90_120)
  have quot: "ranged (js_div (vec_mag (vec_sub \<lparr>x = 90, y = 120\<rparr> \<lparr>x = 0, y = 0\<rparr>)) (Num 50))
                = Num 3"
    by (simp add: mag_90_120 dbl_moderate)
  have n: "(47 :: nat) < 2 ^ 32 - 1" "(20 :: nat) < 2 ^ 32 - 1" by simp_all
  note t = generatePath_step_count [OF far, of noOpts "sconst (5 / 8)"]
  note t' = generatePath_step_count [OF far, of "noOpts\<lparr>steps := Some (Num 20)\<rparr>"
      "sconst (5 / 8)"]
  have tw: "targetWidth noOpts = None" "steps noOpts = None" by (simp_all add: noOpts_def)
  have "fittsSteps (Math_log2 (js_add (Num 3) (Num 1))) (fst (rand 5 15 (sconst (5 / 8))))
          = Num (max 15 (real_of_int (round (log 2 (3 + 1) * 18
                                              + fst (rand 5 15 (sconst (5 / 8)))))))"
    using t [THEN conjunct2, THEN conjunct1, rule_format, of 3]
    unfolding tw option.case quot by simp
  also have "\<dots> = Num (real 47)"
    by (simp add: rand_eq log2_4 round_189_4)
  finally have f: "fittsSteps (Math_log2 (js_add (Num 3) (Num 1)))
                     (fst (rand 5 15 (sconst (5 / 8)))) = Num (real 47)" .
  have sc: "stepCount \<lparr>x = 0, y = 0\<rparr> \<lparr>x = 90, y = 120\<rparr> noOpts (sconst (5 / 8)) = Num (real 47)"
    using t [THEN conjunct1] unfolding tw option.case quot f .
  have p: "\<exists>path g'. generatePath \<lparr>x = 0, y = 0\<rparr> \<lparr>x = 90, y = 120\<rparr> noOpts (sconst (5 / 8))
                 = Some (path, g') \<and> length path = 47 + 1"
    using t [THEN conjunct2, THEN conjunct2, THEN conjunct2, THEN conjunct1, rule_format, of 47]
      sc n(1) fair_five_eighths by blast
  have st: "steps (noOpts\<lparr>steps := Some (Num 20)\<rparr>) = Some (Num 20)" by simp
  have "stepCount \<lparr>x = 0, y = 0\<rparr> \<lparr>x = 90, y = 120\<rparr> (noOpts\<lparr>steps := Some (Num 20)\<rparr>)
          (sconst (5 / 8)) = Num 20"
    using t' [THEN conjunct1] unfolding st by simp
  then have sc': "stepCount \<lparr>x = 0, y = 0\<rparr> \<lparr>x = 90, y = 120\<rparr> (noOpts\<lparr>steps := Some (Num 20)\<rparr>)
          (sconst (5 / 8)) = Num (real 20)" by simp
  have p': "\<exists>path g'. generatePath \<lparr>x = 0, y = 0\<rparr> \<lparr>x = 90, y = 120\<rparr>
                 (noOpts\<lparr>steps := Some (Num 20)\<rparr>) (sconst (5 / 8))
                 = Some (path, g') \<and> length path = 20 + 1"
    using t' [THEN conjunct2, THEN conjunct2, THEN conjunct2, THEN conjunct1, rule_format,
        of 20] sc' n(2) fair_five_eighths by blast
  show ?thesis using far quot fair_five_eighths n sc p sc' p' by simp
qed

text \<open>
  C5, as stated, fails.  A provided step count of \<open>0\<close> is not used as given: with
  \<open>steps = 0\<close>, no target width, \<open>from = (0, 0)\<close>, \<open>to = (3, 4)\<close> and every draw equal to
  \<open>5/8\<close>, the step count is 15 and the path has 16 points, not \<open>0 + 1\<close>; a provided
  \<open>NaN\<close> is replaced in the same way.  A provided target width of \<open>0\<close> or \<open>NaN\<close> is
  replaced by 50 as an absent one is: the step count is the same 15.  A move of less than one pixel
  returns one point whatever the step count: with \<open>steps = 20\<close> and \<open>from = to\<close> the
  path has 1 point, not 21.  A step count that is no natural number does not give
  \<open>steps + 1\<close> points: with \<open>steps = 5/2\<close> the path has 3 points.  With
  \<open>steps = 2\<^sup>3\<^sup>2\<close> no path is returned.  With the target width \<open>-1\<close> the argument of
  the logarithm is \<open>-4\<close>, the step count is \<open>NaN\<close> and the path is empty.  And with the
  target width \<open>2\<^sup>-\<^sup>1\<^sup>0\<^sup>7\<^sup>0\<close> the quotient overflows, the step count is \<open>Infinity\<close>
  and no path is returned.
\<close>

theorem generatePath_steps_zero_counterexample:
  "stepCount \<lparr>x = 0, y = 0\<rparr> \<lparr>x = 3, y = 4\<rparr> (noOpts\<lparr>steps := Some (Num 0)\<rparr>) (sconst (5 / 8))
     = Num 15 \<and>
   stepCount \<lparr>x = 0, y = 0\<rparr> \<lparr>x = 3, y = 4\<rparr> (noOpts\<lparr>steps := Some (Num 0)\<rparr>) (sconst (5 / 8))
     \<noteq> Num 0 \<and>
   map_option (length \<circ> fst)
     (generatePath \<lparr>x = 0, y = 0\<rparr> \<lparr>x = 3, y = 4\<rparr> (noOpts\<lparr>steps := Some (Num 0)\<rparr>)
        (sconst (5 / 8))) = Some 16 \<and>
   stepCount \<lparr>x = 0, y = 0\<rparr> \<lparr>x = 3, y = 4\<rparr> (noOpts\<lparr>steps := Some NaN\<rparr>) (sconst (5 / 8))
     = Num 15 \<and>
   stepCount \<lparr>x = 0, y = 0\<rparr> \<lparr>x = 3, y = 4\<rparr> (noOpts\<lparr>targetWidth := Some (Num 0)\<rparr>)
     (sconst (5 / 8)) = Num 15 \<and>
   stepCount \<lparr>x = 0, y = 0\<rparr> \<lparr>x = 3, y = 4\<rparr> (noOpts\<lparr>targetWidth := Some NaN\<rparr>)
     (sconst (5 / 8)) = Num 15 \<and>
   map_option (length \<circ> fst)
     (generatePath \<lparr>x = 0, y = 0\<rparr> \<lparr>x = 0, y = 0\<rparr> (noOpts\<lparr>steps := Some (Num 20)\<rparr>)
        (sconst (5 / 8))) = Some 1 \<and>
   stepCount \<lparr>x = 0, y = 0\<rparr> \<lparr>x = 3, y = 4\<rparr> (noOpts\<lparr>steps := Some (Num (5 / 2))\<rparr>)
     (sconst (5 / 8)) = Num (5 / 2) \<and>
   map_option (length \<circ> fst)
     (generatePath \<lparr>x = 0, y = 0\<rparr> \<lparr>x = 3, y = 4\<rparr> (noOpts\<lparr>steps := Some (Num (5 / 2))\<rparr>)
        (sconst (5 / 8))) = Some 3 \<and>
   generatePath \<lparr>x = 0, y = 0\<rparr> \<lparr>x = 3, y = 4\<rparr> (noOpts\<lparr>steps := Some (Num (2 ^ 32))\<rparr>)
     (sconst (5 / 8)) = None \<and>
   stepCount \<lparr>x = 0, y = 0\<rparr> \<lparr>x = 3, y = 4\<rparr> (noOpts\<lparr>targetWidth := Some (Num (- 1))\<rparr>)
     (sconst (5 / 8)) = NaN \<and>
   map_option fst
     (generatePath \<lparr>x = 0, y = 0\<rparr> \<lparr>x = 3, y = 4\<rparr> (noOpts\<lparr>targetWidth := Some (Num (- 1))\<rparr>)
        (sconst (5 / 8))) = Some [] \<and>
   stepCount \<lparr>x = 0, y = 0\<rparr> \<lparr>x = 3, y = 4\<rparr> (noOpts\<lparr>targetWidth := Some (Num (1 / 2 ^ 1070))\<rparr>)
     (sconst (5 / 8)) = PosInfinity \<and>
   generatePath \<lparr>x = 0, y = 0\<rparr> \<lparr>x = 3, y = 4\<rparr> (noOpts\<lparr>targetWidth := Some (Num (1 / 2 ^ 1070))\<rparr>)
     (sconst (5 / 8)) = None"
proof -
  have s0: "stepCount \<lparr>x = 0, y = 0\<rparr> \<lparr>x = 3, y = 4\<rparr> (noOpts\<lparr>steps := Some (Num 0)\<rparr>)
              (sconst (5 / 8)) = Num (real 15)"
    by (rule stepCount_3_4) (simp_all add: noOpts_def)
  have sn: "stepCount \<lparr>x = 0, y = 0\<rparr> \<lparr>x = 3, y = 4\<rparr> (noOpts\<lparr>steps := Some NaN\<rparr>)
              (sconst (5 / 8)) = Num (real 15)"
    by (rule stepCount_3_4) (simp_all add: noOpts_def)
  have sw: "stepCount \<lparr>x = 0, y = 0\<rparr> \<lparr>x = 3, y = 4\<rparr> (noOpts\<lparr>targetWidth := Some (Num 0)\<rparr>)
              (sconst (5 / 8)) = Num (real 15)"
    by (rule stepCount_3_4) (simp_all add: noOpts_def)
  have sv: "stepCount \<lparr>x = 0, y = 0\<rparr> \<lparr>x = 3, y = 4\<rparr> (noOpts\<lparr>targetWidth := Some NaN\<rparr>)
              (sconst (5 / 8)) = Num (real 15)"
    by (rule stepCount_3_4) (simp_all add: noOpts_def)
  from generatePath_total [OF fair_five_eighths far_3_4 s0]
  obtain path g' where
    "generatePath \<lparr>x = 0, y = 0\<rparr> \<lparr>x = 3, y = 4\<rparr> (noOpts\<lparr>steps := Some (Num 0)\<rparr>)
       (sconst (5 / 8)) = Some (path, g')"
    and "length path = 15 + 1"
    unfolding iterations_nat by auto
  then have p0: "map_option (length \<circ> fst)
     (generatePath \<lparr>x = 0, y = 0\<rparr> \<lparr>x = 3, y = 4\<rparr> (noOpts\<lparr>steps := Some (Num 0)\<rparr>)
        (sconst (5 / 8))) = Some 16" by simp
  have "js_lt (vec_mag (vec_sub \<lparr>x = 0, y = 0\<rparr> \<lparr>x = 0, y = 0\<rparr>)) (Num 1)"
    by (simp add: vec_sub_def mag_zero)
  then have p1: "map_option (length \<circ> fst)
     (generatePath \<lparr>x = 0, y = 0\<rparr> \<lparr>x = 0, y = 0\<rparr> (noOpts\<lparr>steps := Some (Num 20)\<rparr>)
        (sconst (5 / 8))) = Some 1"
    by (simp add: generatePath_near)
  have sf: "stepCount \<lparr>x = 0, y = 0\<rparr> \<lparr>x = 3, y = 4\<rparr> (noOpts\<lparr>steps := Some (Num (5 / 2))\<rparr>)
              (sconst (5 / 8)) = Num (5 / 2)"
    by (simp add: stepCount_def baseSteps_def)
  have "(5 / 2 :: real) < 2 ^ 32 - 1" by simp
  from generatePath_total [OF fair_five_eighths far_3_4 sf this]
  obtain path2 g2 where
    "generatePath \<lparr>x = 0, y = 0\<rparr> \<lparr>x = 3, y = 4\<rparr> (noOpts\<lparr>steps := Some (Num (5 / 2))\<rparr>)
       (sconst (5 / 8)) = Some (path2, g2)"
    and "length path2 = iterations (Num (5 / 2)) 0"
    by auto
  moreover have "iterations (Num (5 / 2)) 0 = 3" by (simp add: iterations_def)
  ultimately have p2: "map_option (length \<circ> fst)
     (generatePath \<lparr>x = 0, y = 0\<rparr> \<lparr>x = 3, y = 4\<rparr> (noOpts\<lparr>steps := Some (Num (5 / 2))\<rparr>)
        (sconst (5 / 8))) = Some 3" by simp
  have sb: "stepCount \<lparr>x = 0, y = 0\<rparr> \<lparr>x = 3, y = 4\<rparr> (noOpts\<lparr>steps := Some (Num (2 ^ 32))\<rparr>)
              (sconst (5 / 8)) = Num (2 ^ 32)"
    by (simp add: stepCount_def baseSteps_def)
  have pb: "generatePath \<lparr>x = 0, y = 0\<rparr> \<lparr>x = 3, y = 4\<rparr>
              (noOpts\<lparr>steps := Some (Num (2 ^ 32))\<rparr>) (sconst (5 / 8)) = None"
  proof (rule generatePath_no_return [OF far_3_4])
    show "js_le (Num (2 ^ 32 - 1))
            (stepCount \<lparr>x = 0, y = 0\<rparr> \<lparr>x = 3, y = 4\<rparr> (noOpts\<lparr>steps := Some (Num (2 ^ 32))\<rparr>)
               (sconst (5 / 8)))"
      unfolding sb by simp
  qed
  have "dbl (- 5) = Num (- 5)" by (rule dbl_moderate) simp_all
  then have sm: "stepCount \<lparr>x = 0, y = 0\<rparr> \<lparr>x = 3, y = 4\<rparr>
                   (noOpts\<lparr>targetWidth := Some (Num (- 1))\<rparr>) (sconst (5 / 8)) = NaN"
    by (simp add: stepCount_def baseSteps_def noOpts_def js_or_num_def vec_sub_def mag_3_4
          fittsSteps_def rand_eq)
  have "\<exists>g'. generatePath \<lparr>x = 0, y = 0\<rparr> \<lparr>x = 3, y = 4\<rparr>
               (noOpts\<lparr>targetWidth := Some (Num (- 1))\<rparr>) (sconst (5 / 8)) = Some ([], g')"
    by (rule generatePath_not_entered [OF far_3_4]) (simp add: sm)
  then have pm: "map_option fst
     (generatePath \<lparr>x = 0, y = 0\<rparr> \<lparr>x = 3, y = 4\<rparr> (noOpts\<lparr>targetWidth := Some (Num (- 1))\<rparr>)
        (sconst (5 / 8))) = Some []" by auto
  have "(5 :: real) / (1 / 2 ^ 1070) = 5 * 2 ^ 1070" by simp
  moreover have "(2 :: real) ^ 1024 \<le> 5 * 2 ^ 1070"
    by (rule order_trans [of _ "1 * 2 ^ 1070"]) simp_all
  ultimately have "dbl (5 / (1 / 2 ^ 1070)) = PosInfinity"
    by (simp only: dbl_huge)
  then have so: "stepCount \<lparr>x = 0, y = 0\<rparr> \<lparr>x = 3, y = 4\<rparr>
                   (noOpts\<lparr>targetWidth := Some (Num (1 / 2 ^ 1070))\<rparr>) (sconst (5 / 8))
                   = PosInfinity"
    by (simp add: stepCount_def baseSteps_def noOpts_def js_or_num_def vec_sub_def mag_3_4
          fittsSteps_def rand_eq)
  have po: "generatePath \<lparr>x = 0, y = 0\<rparr> \<lparr>x = 3, y = 4\<rparr>
              (noOpts\<lparr>targetWidth := Some (Num (1 / 2 ^ 1070))\<rparr>) (sconst (5 / 8)) = None"
    by (rule generatePath_no_return [OF far_3_4]) (simp only: so js_le.simps)
  show ?thesis using s0 sn sw sv p0 p1 sf p2 pb sm pm so po by simp
qed

text \<open>
  With control points that have finite coordinates, as they have when the distance is
  finite, every point the loop of \<open>generatePath\<close> pushes has integer coordinates and an
  integer delay; so has every point of a returned path before the last, and the last
  point has integer coordinates.
\<close>

lemma is_integer_of_int [simp]: "is_integer (real_of_int z)"
  by (simp add: is_integer_def)

lemma pathStep_integer:
  "pathStep from (jsvec_of c1) (jsvec_of c2) to tr nb i g = Some (p, g') \<Longrightarrow> integer_point p"
  unfolding pathStep_def
  by (auto simp: integer_point_def cubicBezier_def jsvec_of_def Let_def split_beta
           split: option.splits)

lemma pathLoop_Num_integer:
  assumes "pathLoop from (jsvec_of c1) (jsvec_of c2) to tr (Num b) i points g = Some (res, g')"
    and "list_all integer_point points"
  shows "list_all integer_point res"
  using assms
proof (induction "iterations (Num b) i" arbitrary: i points g)
  case 0
  then have "\<not> real i \<le> b" by (simp add: iterations_zero)
  then have "pathLoop from (jsvec_of c1) (jsvec_of c2) to tr (Num b) i points g
               = Some (points, g)"
    by (simp add: pathLoop_done)
  then show ?case using 0 by simp
next
  case (Suc k)
  then have le: "real i \<le> b" using iterations_zero [of b i] by simp
  then have k: "iterations (Num b) (Suc i) = k"
    using iterations_Suc [OF le] Suc(2) by simp
  from Suc.prems(1) le obtain p g1 where
    st: "pathStep from (jsvec_of c1) (jsvec_of c2) to tr (Num b) i g = Some (p, g1)"
    and lp: "pathLoop from (jsvec_of c1) (jsvec_of c2) to tr (Num b) (Suc i) (points @ [p]) g1
               = Some (res, g')"
    by (subst (asm) pathLoop.simps) (auto split: option.splits if_splits)
  have "list_all integer_point (points @ [p])"
    using Suc.prems(2) pathStep_integer [OF st] by simp
  from Suc.hyps(1) [OF k [symmetric] lp this] show ?case .
qed

lemma pathLoop_integer:
  assumes "pathLoop from (jsvec_of c1) (jsvec_of c2) to tr nb 0 [] g = Some (res, g')"
  shows "list_all integer_point res"
proof (cases nb)
  case (Num b)
  then show ?thesis using pathLoop_Num_integer [of "from" c1 c2 to tr b 0 "[]" g res g'] assms
    by simp
next
  case PosInfinity
  then show ?thesis using pathLoop_result [OF assms] by simp
next
  case NegInfinity
  then show ?thesis using assms by (simp add: pathLoop_done)
next
  case NaN
  then show ?thesis using assms by (simp add: pathLoop_done)
qed

lemma generatePath_integer_but_last:
  assumes "\<not> js_lt (vec_mag (vec_sub to from)) (Num 1)"
    and "vec_mag (vec_sub to from) = Num d"
    and "generatePath from to opts g = Some (path, g')"
  shows "list_all integer_point (butlast path) \<and>
         (path \<noteq> [] \<longrightarrow> integer_num (jx (last path)) \<and> integer_num (jy (last path)))"
proof -
  define bs where "bs = baseSteps opts
                (Math_log2 (js_add (ranged (js_div (vec_mag (vec_sub to from))
                                                   (js_or_num (targetWidth opts) (Num 50))))
                                   (Num 1))) g"
  define cps where "cps = bezierControlPoints from to (spread opts) (snd bs)"
  obtain c1 c2 where c: "fst cps = (jsvec_of c1, jsvec_of c2)"
    unfolding cps_def using bezierControlPoints_Num [OF assms(2)] by blast
  from assms(3) obtain points g3 where
    lp: "pathLoop from (fst (fst cps)) (snd (fst cps)) to (js_nullish (tremor opts) 1.2)
                (fst bs) 0 [] (snd cps) = Some (points, g3)"
    and path: "path = snapLast points
                 \<lparr>jx = Num (of_int (round (x to))), jy = Num (of_int (round (y to))),
                  dt = shd g3 * (6 - 2) + 2\<rparr>"
    by (auto simp: generatePath_far [OF assms(1)] bs_def [symmetric] cps_def [symmetric] Let_def
             split: option.splits)
  from pathLoop_integer [OF lp [unfolded c fst_conv snd_conv]]
  have "list_all integer_point points" .
  then have "list_all integer_point (butlast points)"
    by (simp add: list_all_iff) (meson in_set_butlastD)
  moreover have "butlast path = butlast points"
    unfolding path snapLast_def by (simp add: butlast_list_update)
  moreover have "path \<noteq> [] \<longrightarrow> integer_num (jx (last path)) \<and> integer_num (jy (last path))"
    unfolding path snapLast_def by (simp add: last_list_update)
  ultimately show ?thesis by simp
qed

text \<open>
  C4.  That every point of a path has an integer delay fails at the final, snapped
  point: its delay is \<open>rand(2, 6)\<close>, which is not rounded.  With \<open>from = (0, 0)\<close>,
  \<open>to = (3, 4)\<close>, no options and every draw equal to \<open>5/8\<close> the path is returned and its
  last point has \<open>dt = 9/2\<close>.
\<close>

theorem generatePath_last_dt_fractional:
  "\<exists>path. generatePath \<lparr>x = 0, y = 0\<rparr> \<lparr>x = 3, y = 4\<rparr> noOpts (sconst (5 / 8))
            = Some (path, sconst (5 / 8)) \<and>
          path \<noteq> [] \<and> dt (last path) = 9 / 2 \<and> \<not> is_integer (dt (last path))"
proof -
  have sc: "stepCount \<lparr>x = 0, y = 0\<rparr> \<lparr>x = 3, y = 4\<rparr> noOpts (sconst (5 / 8)) = Num (real 15)"
    by (rule stepCount_3_4) (simp_all add: noOpts_def)
  have "real 15 < 2 ^ 32 - 1" by simp
  from generatePath_total [OF fair_five_eighths far_3_4 sc this]
  obtain path where
    gp: "generatePath \<lparr>x = 0, y = 0\<rparr> \<lparr>x = 3, y = 4\<rparr> noOpts (sconst (5 / 8))
       = Some (path, sconst (5 / 8))"
    and len: "length path = 15 + 1"
    and lst: "path \<noteq> [] \<longrightarrow> last path = \<lparr>jx = Num (of_int (round (3 :: real))),
                 jy = Num (of_int (round (4 :: real))), dt = 5 / 8 * 4 + 2\<rparr>"
    unfolding iterations_nat by auto
  from len have ne: "path \<noteq> []" by auto
  with lst have d: "dt (last path) = 9 / 2" by simp
  have "\<not> is_integer (dt (last path))" unfolding d by (simp add: is_integer_def)
  then show ?thesis using gp ne d by blast
qed

section \<open>Streams of draws and the controller\<close>

lemma constState_eq:
  "constState c = \<lparr>cursorPos = \<lparr>x = 0, y = 0\<rparr>, debug = False, draws = sconst c,
                    page = [], ghostCursor = False\<rparr>"
  by (simp add: constState_def createHumanMouse_def js_nullish_def)

declare scrollLoop.simps [simp del] idleLoop.simps [simp del] typeLoop.simps [simp del]

lemma emit_fields [simp]:
  "cursorPos (emit e s) = cursorPos s" "draws (emit e s) = draws s"
  "page (emit e s) = page s @ [e]" "debug (emit e s) = debug s"
  "ghostCursor (emit e s) = ghostCursor s"
  by (simp_all add: emit_def)

lemma waitRand_fields [simp]:
  "cursorPos (waitRand lo hi s) = cursorPos s"
  "draws (waitRand lo hi s) = stl (draws s)"
  "page (waitRand lo hi s) = page s @ [Wait (of_int (round (shd (draws s) * (hi - lo) + lo)))]"
  by (simp_all add: waitRand_def rand_eq)

lemma ensureVisibleCursor_fields [simp]:
  "cursorPos (ensureVisibleCursor s) = cursorPos s"
  "draws (ensureVisibleCursor s) = draws s"
  "page (ensureVisibleCursor s) = page s"
  by (simp_all add: ensureVisibleCursor_def)

lemma replay_cursorPos [simp]: "cursorPos (replay path s) = cursorPos s"
  by (induction path s rule: replay.induct) (simp_all add: Let_def)

lemma replay_draws [simp]: "draws (replay path s) = draws s"
  by (induction path s rule: replay.induct) (simp_all add: Let_def)

lemma later_refl [simp]: "later g g"
  unfolding later_def by (metis sdrop.simps(1))

lemma later_stl: "later g g' \<Longrightarrow> later g (stl g')"
  unfolding later_def by (metis sdrop_simps(2))

lemma later_trans: "later g g' \<Longrightarrow> later g' g'' \<Longrightarrow> later g g''"
  unfolding later_def by (metis sdrop_add)

lemma later_sdrop [simp]: "later g (sdrop n g)"
  unfolding later_def by blast

lemma fair_later: "fair g \<Longrightarrow> later g g' \<Longrightarrow> fair g'"
  unfolding later_def using fair_sdrop by blast

lemma uniform_later: "uniform_draws g \<Longrightarrow> later g g' \<Longrightarrow> uniform_draws g'"
  unfolding later_def using uniform_draws_sdrop by blast

lemma later_sconst: "later (sconst c) g' \<Longrightarrow> g' = sconst c"
  unfolding later_def by auto

lemma gaussRandom_later:
  assumes "gaussRandom g = Some (v, g')"
  shows "later g g'"
proof -
  have "later g (snd r)" if "gaussRandom g = Some r" for g r
  proof (rule gaussRandom.raw_induct [where P = "\<lambda>g r. later g (snd r)", OF _ that])
    fix gr :: "rng \<Rightarrow> (real \<times> rng) option" and g r
    assume IH: "\<And>h q. gr h = Some q \<Longrightarrow> later h (snd q)"
      and h: "(case Math_random g of
                 (r1, g1) \<Rightarrow>
                   case Math_random g1 of
                     (r2, g2) \<Rightarrow>
                       let u = r1 * 2 - 1; v = r2 * 2 - 1; s = u * u + v * v
                       in if 1 \<le> s \<or> s = 0 then gr g2
                          else Some (u * sqrt (- 2 * ln s / s), g2)) = Some r"
    have l2: "later g (stl (stl g))" by (simp add: later_stl)
    show "later g (snd r)"
    proof (cases "accepted (pair_u g 0) (pair_v g 0)")
      case True
      then have "snd r = stl (stl g)"
        using h by (auto simp: Math_random_def Let_def accepted_iff pair_u_def pair_v_def)
      then show ?thesis using l2 by simp
    next
      case False
      then have "gr (stl (stl g)) = Some r"
        using h by (auto simp: Math_random_def Let_def accepted_iff pair_u_def pair_v_def)
      from IH [OF this] l2 show ?thesis by (rule later_trans [rotated])
    qed
  qed
  from this [OF assms] show ?thesis by simp
qed

lemma gauss_later: "gauss m sd g = Some (v, g') \<Longrightarrow> later g g'"
  unfolding gauss_def using gaussRandom_later by (auto split: option.splits)

lemma gauss_fair': "fair g \<Longrightarrow> \<exists>v g'. gauss m sd g = Some (v, g')"
  using gauss_fair by blast

lemma fittsSteps_Num:
  assumes "ranged v = Num q" and "- 1 < q" and "0 \<le> shd g" and "shd g < 1"
  shows "\<exists>m. fittsSteps (Math_log2 (js_add (ranged v) (Num 1))) (fst (rand 5 15 g))
               = Num (real m) \<and> 15 \<le> m \<and> m \<le> 18465"
proof -
  define w where "w = log 2 (q + 1) * 18 + fst (rand 5 15 g)"
  define m where "m = nat (max 15 (round w))"
  have mx: "max 15 (real_of_int (round w)) = real m" unfolding m_def by simp
  have "fittsSteps (Math_log2 (js_add (ranged v) (Num 1))) (fst (rand 5 15 g))
          = Num (max 15 (real_of_int (round w)))"
    using assms(2) unfolding assms(1) w_def by (simp add: fittsSteps_def Math_max_Num)
  then have f: "fittsSteps (Math_log2 (js_add (ranged v) (Num 1))) (fst (rand 5 15 g))
                  = Num (real m)"
    unfolding mx .
  have "\<bar>q\<bar> < 2 ^ 1024" using assms(1) by (rule ranged_Num_bound)
  then have "q < 2 ^ 1024" by (rule abs_less_iff [THEN iffD1, THEN conjunct1])
  then have "log 2 (q + 1) < 1025" using assms(2) by (intro log2_bound)
  moreover have "fst (rand 5 15 g) < 15" using assms(3,4) by (simp add: rand_eq)
  ultimately have "max 15 (round w) \<le> 18465" unfolding w_def by (rule fitts_bound)
  then have "m \<le> 18465" unfolding m_def by simp
  moreover have "15 \<le> m" unfolding m_def by simp
  ultimately show ?thesis using f by blast
qed

lemma moveTo_no_overshoot:
  assumes "\<not> js_gt (vec_mag (vec_sub \<lparr>x = tx, y = ty\<rparr> (cursorPos s)))
                   (js_nullish (overshootThreshold mo) (Num 300))"
    and "generatePath (cursorPos s) \<lparr>x = tx, y = ty\<rparr> mo (draws s) = Some (path, g2)"
  shows "moveTo tx ty mo s
           = Some ((replay path (ensureVisibleCursor (s\<lparr>draws := g2\<rparr>)))
                     \<lparr>cursorPos := \<lparr>x = tx, y = ty\<rparr>\<rparr>)"
  using assms unfolding moveTo_def by (simp add: Let_def split_beta)

lemma moveTo_cursorPos:
  assumes "moveTo tx ty mo s = Some s'"
  shows "cursorPos s' = \<lparr>x = tx, y = ty\<rparr>"
proof -
  obtain r where "s' = r\<lparr>cursorPos := \<lparr>x = tx, y = ty\<rparr>\<rparr>"
    using assms unfolding moveTo_def Let_def split_beta
    by (simp split: option.splits) blast
  then show ?thesis by simp
qed

lemma moveToElement_result:
  assumes "moveToElement bx mo s = Some (p, s')"
  shows "p = \<lparr>x = of_int (round (x bx + width bx * 0.15
                              + draws s !! 0 * (width bx - 2 * (width bx * 0.15)))),
              y = of_int (round (y bx + height bx * 0.15
                              + draws s !! 1 * (height bx - 2 * (height bx * 0.15))))\<rparr>"
  using assms unfolding moveToElement_def Let_def split_beta rand_eq
  by (simp split: option.splits)

lemma dbl_mid:
  assumes "1 / 2 ^ 64 \<le> \<bar>a\<bar>" and "\<bar>a\<bar> \<le> 2 ^ 64"
  shows "dbl a = Num a"
proof (rule dbl_id)
  have "(1 :: real) / 2 ^ 1075 < 1 / 2 ^ 64" by (simp add: frac_less2)
  then show "1 / 2 ^ 1075 < \<bar>a\<bar>" using assms(1) by (rule less_le_trans)
  have "(2 :: real) ^ 64 < 2 ^ 1024 - 2 ^ 970" by simp
  then show "\<bar>a\<bar> < 2 ^ 1024 - 2 ^ 970" using assms(2) by (rule le_less_trans [rotated])
qed

lemma moveTo_returns:
  assumes fair: "fair (draws s)" and u: "0 \<le> shd (draws s)" "shd (draws s) < 1"
    and d: "vec_mag (vec_sub \<lparr>x = tx, y = ty\<rparr> (cursorPos s)) = Num d"
    and d1: "1 \<le> d" and d300: "d \<le> 300"
    and thr: "overshootThreshold mo = None" and st: "steps mo = None"
    and tw: "js_or_num (targetWidth mo) (Num 50) = Num w" and w1: "1 \<le> w" and w2: "w \<le> 2 ^ 32"
  shows "\<exists>s'. moveTo tx ty mo s = Some s'"
proof -
  have far: "\<not> js_lt (vec_mag (vec_sub \<lparr>x = tx, y = ty\<rparr> (cursorPos s))) (Num 1)"
    using d1 by (simp add: d)
  have near: "\<not> js_gt (vec_mag (vec_sub \<lparr>x = tx, y = ty\<rparr> (cursorPos s)))
                      (js_nullish (overshootThreshold mo) (Num 300))"
    using d300 by (simp add: d thr js_nullish_def js_gt_def)
  have wpos: "0 < w" using w1 by simp
  have q0: "0 < d / w" using d1 wpos by simp
  have a: "\<bar>d / w\<bar> = d / w" using q0 by (rule abs_of_pos)
  have "d / w \<le> 300 / 1" using d1 d300 w1 by (intro frac_le) simp_all
  also have "\<dots> \<le> (2 :: real) ^ 64" by simp
  finally have qhi: "\<bar>d / w\<bar> \<le> 2 ^ 64" unfolding a .
  have "(1 :: real) / 2 ^ 64 \<le> 1 / 2 ^ 32" by (simp add: frac_le)
  also have "\<dots> \<le> d / w" using d1 w1 w2 wpos by (intro frac_le) simp_all
  finally have qlo: "1 / 2 ^ 64 \<le> \<bar>d / w\<bar>" unfolding a .
  have r: "ranged (js_div (Num d) (Num w)) = Num (d / w)"
    using wpos dbl_mid [OF qlo qhi] by simp
  obtain m where m: "fittsSteps (Math_log2 (js_add (ranged (js_div (Num d) (Num w))) (Num 1)))
                       (fst (rand 5 15 (draws s))) = Num (real m)"
    and mhi: "m \<le> 18465"
    using fittsSteps_Num [OF r _ u] q0 by auto
  have sc: "stepCount (cursorPos s) \<lparr>x = tx, y = ty\<rparr> mo (draws s) = Num (real m)"
    unfolding stepCount_def d tw baseSteps_def st option.case Let_def split_beta fst_conv
    by (rule m)
  have "real m \<le> 18465" using mhi by simp
  then have "real m < 2 ^ 32 - 1" by simp
  from generatePath_total [OF fair far sc this]
  obtain path g2 where
    "generatePath (cursorPos s) \<lparr>x = tx, y = ty\<rparr> mo (draws s) = Some (path, g2)"
    by blast
  from moveTo_no_overshoot [OF near this] show ?thesis by blast
qed

lemma moveToElement_returns:
  assumes "moveTo (of_int (round (x bx + width bx * 0.15
                             + shd (draws s) * (width bx - 2 * (width bx * 0.15)))))
                  (of_int (round (y bx + height bx * 0.15
                             + shd (stl (draws s)) * (height bx - 2 * (height bx * 0.15)))))
                  (mo\<lparr>targetWidth := Some (Num (width bx))\<rparr>)
                  (s\<lparr>draws := stl (stl (draws s))\<rparr>) = Some s'"
  shows "\<exists>p s''. moveToElement bx mo s = Some (p, s'')"
  using assms unfolding moveToElement_def Let_def split_beta by (simp add: rand_eq)

lemma fair_33_64: "fair (sconst (33 / 64))"
  by (rule fair_sconst) (simp add: accepted_def)

lemma mag_120_110: "vec_mag \<lparr>x = 120, y = 110\<rparr> = Num (sqrt 26500)"
  using vec_mag_in_range [of "\<lparr>x = 120, y = 110\<rparr>"] by simp

text \<open>
  C2.  That the point \<open>moveToElement\<close> returns is never the exact centre of the box
  fails: the code has nothing that keeps the point away from it.  For the box
  \<open>{x: 100, y: 100, width: 40, height: 20}\<close> and every draw equal to \<open>33/64\<close>, the call
  returns \<open>(120, 110)\<close>, the centre of the box.
\<close>

theorem moveToElement_dead_centre:
  "map_option fst
     (moveToElement \<lparr>x = 100, y = 100, width = 40, height = 20\<rparr> noOpts
        (constState (33 / 64)))
   = Some \<lparr>x = 100 + 40 / 2, y = 100 + 20 / 2\<rparr>"
proof -
  define s0 where "s0 = constState (33 / 64)"
  define b0 :: box where "b0 = \<lparr>x = 100, y = 100, width = 40, height = 20\<rparr>"
  have r1: "round (100 + 40 * 15 / 100 + (33 / 64) * (40 - 2 * (40 * 15 / 100)) :: real) = 120"
    by (simp add: round_def)
  have r2: "round (100 + 20 * 15 / 100 + (33 / 64) * (20 - 2 * (20 * 15 / 100)) :: real) = 110"
    by (simp add: round_def)
  have lo: "1 \<le> sqrt 26500" by (rule real_le_rsqrt) simp
  have hi: "sqrt 26500 \<le> 300" by (rule real_le_lsqrt) simp_all
  have "\<exists>s'. moveTo 120 110 (noOpts\<lparr>targetWidth := Some (Num 40)\<rparr>)
               (s0\<lparr>draws := sconst (33 / 64)\<rparr>) = Some s'"
    by (rule moveTo_returns [where d = "sqrt 26500" and w = 40])
       (simp_all add: s0_def constState_eq fair_33_64 vec_sub_def mag_120_110 lo hi noOpts_def
          js_or_num_def)
  then obtain s' where
    "moveTo 120 110 (noOpts\<lparr>targetWidth := Some (Num 40)\<rparr>)
       (s0\<lparr>draws := sconst (33 / 64)\<rparr>) = Some s'" by blast
  then have "\<exists>p s''. moveToElement b0 noOpts s0 = Some (p, s'')"
    using r1 r2 by (intro moveToElement_returns) (simp add: s0_def b0_def constState_eq)
  then obtain p s'' where m: "moveToElement b0 noOpts s0 = Some (p, s'')" by blast
  from moveToElement_result [OF m] have "p = \<lparr>x = 120, y = 110\<rparr>"
    using r1 r2 unfolding s0_def b0_def constState_eq by simp
  then show ?thesis using m unfolding s0_def b0_def by simp
qed

lemma uniform_five_eighths: "uniform_draws (sconst (5 / 8))"
  by (simp add: uniform_draws_def)

lemma round_between:
  fixes v :: real
  assumes "real_of_int a \<le> v" "v \<le> real_of_int b"
  shows "a \<le> round v \<and> round v \<le> b"
  using round_mono [OF assms(1)] round_mono [OF assms(2)] by simp

lemma rand_range:
  assumes "uniform_draws g" "lo \<le> hi"
  shows "lo \<le> fst (rand lo hi g) \<and> fst (rand lo hi g) \<le> hi"
proof -
  have r: "0 \<le> shd g" "shd g < 1" using uniform_draws_snth [OF assms(1), of 0] by simp_all
  have "shd g * (hi - lo) \<le> 1 * (hi - lo)"
    using r assms(2) by (intro mult_right_mono) simp_all
  moreover have "0 \<le> shd g * (hi - lo)" using r assms(2) by simp
  ultimately show ?thesis by (simp add: rand_eq)
qed

lemma moveToElement_scenario:
  assumes u: "uniform_draws (draws s)"
    and m: "moveToElement \<lparr>x = 100, y = 100, width = 40, height = 20\<rparr> mo s = Some (p, s')"
  shows "106 \<le> x p \<and> x p \<le> 134 \<and> 103 \<le> y p \<and> y p \<le> 117"
proof -
  have r0: "0 \<le> draws s !! 0" "draws s !! 0 < 1" and r1: "0 \<le> draws s !! 1" "draws s !! 1 < 1"
    using uniform_draws_snth [OF u, of 0] uniform_draws_snth [OF u, of 1] by simp_all
  have "real_of_int 106 \<le> 106 + draws s !! 0 * 28" "106 + draws s !! 0 * 28 \<le> real_of_int 134"
    using r0 by simp_all
  from round_between [OF this]
  have a: "106 \<le> round (106 + draws s !! 0 * 28)" "round (106 + draws s !! 0 * 28) \<le> 134"
    by simp_all
  have "real_of_int 103 \<le> 103 + draws s !! 1 * 14" "103 + draws s !! 1 * 14 \<le> real_of_int 117"
    using r1 by simp_all
  from round_between [OF this]
  have b: "103 \<le> round (103 + draws s !! 1 * 14)" "round (103 + draws s !! 1 * 14) \<le> 117"
    by simp_all
  have "p = \<lparr>x = of_int (round (106 + draws s !! 0 * 28)),
             y = of_int (round (103 + draws s !! 1 * 14))\<rparr>"
    using moveToElement_result [OF m] by simp
  then show ?thesis using a b by simp
qed

text \<open>
  Rounding to whole pixels can carry the point out of the inner 70% and onto the edge
  of a small box: for a box of 2 by 2 pixels at the origin and every draw equal to 0,
  \<open>moveToElement\<close> returns the corner \<open>(0, 0)\<close> of the box.
\<close>

lemma moveToElement_edge:
  "map_option fst (moveToElement \<lparr>x = 0, y = 0, width = 2, height = 2\<rparr> noOpts (constState 0))
     = Some \<lparr>x = 0, y = 0\<rparr>"
proof -
  have r: "round (3 / 10 :: real) = 0" by (simp add: round_def)
  have m: "vec_mag (vec_sub \<lparr>x = 0, y = 0\<rparr> \<lparr>x = 0, y = 0\<rparr>) = Num 0"
    by (simp add: vec_sub_def mag_zero)
  have "moveTo 0 0 (noOpts\<lparr>targetWidth := Some (Num 2)\<rparr>) (constState 0) \<noteq> None"
    unfolding moveTo_def Let_def split_beta
    by (simp add: constState_eq m noOpts_def js_nullish_def js_gt_def generatePath_near)
  then show ?thesis
    unfolding moveToElement_def Let_def split_beta
    by (auto simp: constState_eq rand_eq r split: option.splits)
qed

lemma click_cursorPos: "cursorPos (click co s) = cursorPos s"
  by (simp add: click_def Let_def)

lemma scrollPairs_Cons: "scrollPairs ((a, d) # ws) = Wheel 0 a # Wait d # scrollPairs ws"
  by (simp add: scrollPairs_def)

lemma scrollPairs_Nil: "scrollPairs [] = []"
  by (simp add: scrollPairs_def)

lemma scrollLoop_result:
  "scrollLoop n ps i s = Some s' \<Longrightarrow> uniform_draws (draws s) \<Longrightarrow>
     cursorPos s' = cursorPos s \<and> later (draws s) (draws s') \<and>
     (\<exists>ws. page s' = page s @ scrollPairs ws \<and> int (length ws) = max 0 (n - int i) \<and>
           (\<forall>(a, d) \<in> set ws. is_integer a \<and> is_integer d \<and> 60 \<le> d \<and> d \<le> 150))"
proof (induction n ps i s rule: scrollLoop.induct)
  case (1 n ps i s)
  show ?case
  proof (cases "int i < n")
    case True
    from "1.prems"(1) True obtain noise g1 where
      g: "gauss 0 (\<bar>ps\<bar> * 0.15) (draws s) = Some (noise, g1)"
      by (subst (asm) scrollLoop.simps) (auto split: option.splits)
    define a where "a = real_of_int (round (ps + noise))"
    define d where "d = real_of_int (round (fst (rand 60 150 g1)))"
    define s2 where "s2 = waitRand 60 150 (emit (Wheel 0 a) (s\<lparr>draws := g1\<rparr>))"
    have lp: "scrollLoop n ps (Suc i) s2 = Some s'"
      using "1.prems"(1) True g unfolding s2_def a_def
      by (subst (asm) scrollLoop.simps) (simp add: Let_def)
    have l1: "later (draws s) g1" using g by (rule gauss_later)
    have u1: "uniform_draws g1" using "1.prems"(2) l1 by (rule uniform_later)
    have l2: "later (draws s) (draws s2)" unfolding s2_def using l1 by (simp add: later_stl)
    have u2: "uniform_draws (draws s2)" using "1.prems"(2) l2 by (rule uniform_later)
    have pg: "page s2 = page s @ [Wheel 0 a, Wait d]"
      unfolding s2_def d_def by (simp add: rand_eq)
    have dr: "60 \<le> d \<and> d \<le> 150"
    proof -
      have "real_of_int 60 \<le> fst (rand 60 150 g1)" "fst (rand 60 150 g1) \<le> real_of_int 150"
        using rand_range [OF u1, of 60 150] by simp_all
      from round_between [OF this] show ?thesis unfolding d_def by simp
    qed
    have di: "is_integer a" "is_integer d" unfolding a_def d_def is_integer_def by simp_all
    from "1.IH" [OF True g refl refl refl] lp u2
    have c: "cursorPos s' = cursorPos s2" and l3: "later (draws s2) (draws s')"
      and "\<exists>ws. page s' = page s2 @ scrollPairs ws \<and> int (length ws) = max 0 (n - int (Suc i)) \<and>
           (\<forall>(a, d) \<in> set ws. is_integer a \<and> is_integer d \<and> 60 \<le> d \<and> d \<le> 150)"
      unfolding s2_def a_def by (simp_all add: Let_def)
    then obtain ws where ws: "page s' = page s2 @ scrollPairs ws"
      "int (length ws) = max 0 (n - int (Suc i))"
      "\<forall>(a, d) \<in> set ws. is_integer a \<and> is_integer d \<and> 60 \<le> d \<and> d \<le> 150"
      by blast
    have "page s' = page s @ scrollPairs ((a, d) # ws)"
      using ws(1) pg by (simp add: scrollPairs_Cons)
    moreover have "int (length ((a, d) # ws)) = max 0 (n - int i)"
      using ws(2) True by simp
    moreover have "\<forall>(a, d) \<in> set ((a, d) # ws). is_integer a \<and> is_integer d \<and> 60 \<le> d \<and> d \<le> 150"
      using ws(3) dr di by simp
    moreover have "cursorPos s' = cursorPos s" using c unfolding s2_def by simp
    moreover have "later (draws s) (draws s')" using l2 l3 by (rule later_trans)
    ultimately show ?thesis by blast
  next
    case False
    then have "s' = s" using "1.prems"(1) by (subst (asm) scrollLoop.simps) simp
    then show ?thesis using False by (auto simp: scrollPairs_Nil intro: exI [of _ "[]"])
  qed
qed

lemma scrollLoop_fair:
  "fair (draws s) \<Longrightarrow> \<exists>s'. scrollLoop n ps i s = Some s'"
proof (induction n ps i s rule: scrollLoop.induct)
  case (1 n ps i s)
  show ?case
  proof (cases "int i < n")
    case True
    obtain noise g1 where g: "gauss 0 (\<bar>ps\<bar> * 0.15) (draws s) = Some (noise, g1)"
      using gauss_fair' [OF "1.prems"] by blast
    define s2 where "s2 = waitRand 60 150 (emit (Wheel 0 (real_of_int (round (ps + noise))))
                                              (s\<lparr>draws := g1\<rparr>))"
    have "later (draws s) (draws s2)"
      unfolding s2_def using gauss_later [OF g] by (simp add: later_stl)
    then have "fair (draws s2)" using "1.prems" fair_later by blast
    from "1.IH" [OF True g refl refl refl] this
    obtain s' where "scrollLoop n ps (Suc i) s2 = Some s'"
      unfolding s2_def by (auto simp: Let_def)
    then show ?thesis
      using True g unfolding s2_def by (subst scrollLoop.simps) (simp add: Let_def)
  next
    case False
    then show ?thesis by (subst scrollLoop.simps) simp
  qed
qed

section \<open>Scrolling and clicking\<close>

lemma scrollLoop_cursorPos:
  "scrollLoop n ps i s = Some s' \<Longrightarrow> cursorPos s' = cursorPos s"
proof (induction n ps i s rule: scrollLoop.induct)
  case (1 n ps i s)
  show ?case
  proof (cases "int i < n")
    case True
    from "1.prems" True obtain noise g1 where
      g: "gauss 0 (\<bar>ps\<bar> * 0.15) (draws s) = Some (noise, g1)"
      by (subst (asm) scrollLoop.simps) (auto split: option.splits)
    have "scrollLoop n ps (Suc i)
            (waitRand 60 150 (emit (Wheel 0 (real_of_int (round (ps + noise))))
                                 (s\<lparr>draws := g1\<rparr>))) = Some s'"
      using "1.prems" True g by (subst (asm) scrollLoop.simps) (simp add: Let_def)
    from "1.IH" [OF True g refl refl refl this] show ?thesis by simp
  next
    case False
    then show ?thesis using "1.prems" by (subst (asm) scrollLoop.simps) simp
  qed
qed

lemma humanScroll_cursorPos:
  "humanScroll deltaY s = Some s' \<Longrightarrow> cursorPos s' = cursorPos s"
  unfolding humanScroll_def Let_def split_beta
  by (auto split: option.splits dest!: scrollLoop_cursorPos)

lemma humanScroll_count:
  assumes "uniform_draws (draws s)"
  shows "3 \<le> round (fst (rand 3 6 (draws s))) \<and> round (fst (rand 3 6 (draws s))) \<le> 6"
proof -
  have "real_of_int 3 \<le> fst (rand 3 6 (draws s))" "fst (rand 3 6 (draws s)) \<le> real_of_int 6"
    using rand_range [OF assms, of 3 6] by simp_all
  from round_between [OF this] show ?thesis .
qed

lemma humanScroll_fair:
  assumes "fair (draws s)"
  shows "\<exists>s'. humanScroll deltaY s = Some s'"
proof -
  have "fair (draws (s\<lparr>draws := stl (draws s)\<rparr>))" using assms by (simp add: fair_stl)
  from scrollLoop_fair [OF this] show ?thesis
    unfolding humanScroll_def Let_def split_beta rand_eq
    by (simp split: option.splits)
qed

lemma humanScroll_page:
  assumes u: "uniform_draws (draws s)" and h: "humanScroll deltaY s = Some s'"
  shows "\<exists>ws f. page s' = page s @ scrollPairs ws @ [Wait f] \<and>
           int (length ws) = round (fst (rand 3 6 (draws s))) \<and>
           (\<forall>(a, d) \<in> set ws. is_integer a \<and> is_integer d \<and> 60 \<le> d \<and> d \<le> 150) \<and>
           is_integer f \<and> 200 \<le> f \<and> f \<le> 500"
proof -
  define n where "n = round (fst (rand 3 6 (draws s)))"
  define s0 where "s0 = s\<lparr>draws := stl (draws s)\<rparr>"
  from h obtain s1 where
    lp: "scrollLoop n (deltaY / of_int n) 0 s0 = Some s1" and s': "s' = waitRand 200 500 s1"
    unfolding humanScroll_def Let_def split_beta n_def s0_def
    by (auto simp: rand_eq split: option.splits)
  have u0: "uniform_draws (draws s0)"
    unfolding s0_def using u uniform_later [OF u later_stl [OF later_refl]] by simp
  from scrollLoop_result [OF lp u0] obtain ws where
    l: "later (draws s0) (draws s1)" and pg: "page s1 = page s0 @ scrollPairs ws"
    and len: "int (length ws) = max 0 (n - int 0)"
    and ws: "\<forall>(a, d) \<in> set ws. is_integer a \<and> is_integer d \<and> 60 \<le> d \<and> d \<le> 150"
    by blast
  have n3: "3 \<le> n" unfolding n_def using humanScroll_count [OF u] by simp
  define f where "f = real_of_int (round (fst (rand 200 500 (draws s1))))"
  have u1: "uniform_draws (draws s1)" using u0 l by (rule uniform_later)
  have "real_of_int 200 \<le> fst (rand 200 500 (draws s1))"
       "fst (rand 200 500 (draws s1)) \<le> real_of_int 500"
    using rand_range [OF u1, of 200 500] by simp_all
  from round_between [OF this] have fr: "200 \<le> f \<and> f \<le> 500" unfolding f_def by simp
  have fi: "is_integer f" unfolding f_def is_integer_def by simp
  have "page s' = page s @ scrollPairs ws @ [Wait f]"
    unfolding s' f_def using pg by (simp add: s0_def rand_eq)
  moreover have "int (length ws) = n" using len n3 by simp
  ultimately show ?thesis using ws fr fi unfolding n_def by blast
qed

text \<open>
  C6, as amended.  For every \<open>deltaY\<close> and draws in \<open>[0, 1)\<close>, \<open>humanScroll\<close> issues
  \<open>n\<close> scroll-by commands, where \<open>n = round(uniform(3, 6))\<close> lies between 3 and 6;
  after each of them, the last one included, it waits \<open>round(uniform(60, 150))\<close> ms,
  so there are exactly \<open>n\<close> such waits; and once after the loop it waits
  \<open>round(uniform(200, 500))\<close> ms.  On a fair stream of draws the call returns.
\<close>

theorem humanScroll_events:
  assumes u: "uniform_draws (draws s)"
  shows "3 \<le> round (fst (rand 3 6 (draws s))) \<and> round (fst (rand 3 6 (draws s))) \<le> 6 \<and>
         (fair (draws s) \<longrightarrow> (\<exists>s'. humanScroll deltaY s = Some s')) \<and>
         (\<forall>s'. humanScroll deltaY s = Some s' \<longrightarrow>
            (\<exists>ws f. page s' = page s @ scrollPairs ws @ [Wait f] \<and>
               int (length ws) = round (fst (rand 3 6 (draws s))) \<and>
               (\<forall>(a, d) \<in> set ws. is_integer a \<and> is_integer d \<and> 60 \<le> d \<and> d \<le> 150) \<and>
               is_integer f \<and> 200 \<le> f \<and> f \<le> 500))"
  using humanScroll_count [OF u] humanScroll_fair [of s deltaY] humanScroll_page [OF u]
  by blast

lemma waits_scrollPairs: "length (filter is_wait (scrollPairs ws)) = length ws"
  by (induction ws) (auto simp: scrollPairs_def)

lemma scrolls_scrollPairs: "length (filter is_wheel (scrollPairs ws)) = length ws"
  by (induction ws) (auto simp: scrollPairs_def)

lemma constState_draws:
  "uniform_draws (draws (constState (5 / 8)))" "fair (draws (constState (5 / 8)))"
  unfolding constState_eq by (simp_all add: uniform_five_eighths fair_five_eighths)

lemma constState_count: "round (fst (rand 3 6 (draws (constState (5 / 8))))) = 5"
  unfolding constState_eq by (simp add: rand_eq round_def)

theorem humanScroll_events_witness:
  "uniform_draws (draws (constState (5 / 8))) \<and> fair (draws (constState (5 / 8))) \<and>
   (\<exists>s' ws f. humanScroll 100 (constState (5 / 8)) = Some s' \<and>
        page s' = page (constState (5 / 8)) @ scrollPairs ws @ [Wait f] \<and> length ws = 5 \<and>
        (\<forall>(a, d) \<in> set ws. 60 \<le> d \<and> d \<le> 150) \<and> 200 \<le> f \<and> f \<le> 500)"
proof -
  note t = humanScroll_events [OF constState_draws(1), of 100]
  from t constState_draws(2) obtain s' where h: "humanScroll 100 (constState (5 / 8)) = Some s'"
    by blast
  with t obtain ws f where
    "page s' = page (constState (5 / 8)) @ scrollPairs ws @ [Wait f]"
    "int (length ws) = round (fst (rand 3 6 (draws (constState (5 / 8)))))"
    "\<forall>(a, d) \<in> set ws. is_integer a \<and> is_integer d \<and> 60 \<le> d \<and> d \<le> 150"
    "200 \<le> f \<and> f \<le> 500"
    by blast
  then show ?thesis
    using h constState_draws unfolding constState_count by fastforce
qed

text \<open>
  C6, as stated, fails: the waits of \<open>uniform(60, 150)\<close> are not only between
  consecutive scroll-by commands.  For \<open>deltaY = 100\<close> and every draw equal to \<open>5/8\<close>
  the page receives 5 scroll-by commands and 6 waits, where \<open>(5 - 1) + 1 = 5\<close> waits are
  claimed: the last scroll-by is followed by two waits.
\<close>

theorem humanScroll_waits_counterexample:
  "map_option scrolls (humanScroll 100 (constState (5 / 8))) = Some 5 \<and>
   map_option waits (humanScroll 100 (constState (5 / 8))) = Some 6 \<and>
   (6 :: nat) \<noteq> (5 - 1) + 1"
proof -
  obtain s' where h: "humanScroll 100 (constState (5 / 8)) = Some s'"
    using humanScroll_fair [OF constState_draws(2)] by blast
  from humanScroll_page [OF constState_draws(1) h] obtain ws f where
    pg: "page s' = page (constState (5 / 8)) @ scrollPairs ws @ [Wait f]"
    and len: "int (length ws) = round (fst (rand 3 6 (draws (constState (5 / 8)))))"
    by blast
  have l5: "length ws = 5" using len unfolding constState_count by simp
  have "scrolls s' = 5" "waits s' = 6"
    unfolding scrolls_def waits_def pg
    by (simp_all add: constState_eq waits_scrollPairs scrolls_scrollPairs l5)
  then show ?thesis using h by simp
qed

text \<open>
  C10.  \<open>click\<close> and \<open>humanScroll\<close> leave the cursor position of the controller as it
  was: after either call the accessor \<open>position\<close> returns the pair it returned before.
  The setter and \<open>moveTo\<close> do change it: the accessor then returns the pair given.
\<close>

theorem click_humanScroll_keep_position:
  "get_position (click co s) = get_position s \<and>
   (\<forall>s'. humanScroll deltaY s = Some s' \<longrightarrow> get_position s' = get_position s) \<and>
   get_position (set_position p s) = \<lparr>x = x p, y = y p\<rparr> \<and>
   (\<forall>s'. moveTo tx ty mo s = Some s' \<longrightarrow> get_position s' = \<lparr>x = tx, y = ty\<rparr>)"
  by (auto simp: get_position_def set_position_def click_cursorPos
           dest: humanScroll_cursorPos moveTo_cursorPos)

theorem click_humanScroll_keep_position_witness:
  "(\<exists>s'. humanScroll 100 (constState (5 / 8)) = Some s' \<and>
         get_position s' = get_position (constState (5 / 8))) \<and>
   get_position (click noOpts (constState (5 / 8))) = \<lparr>x = 0, y = 0\<rparr> \<and>
   (\<exists>s'. moveTo 3 4 noOpts (constState (5 / 8)) = Some s' \<and> get_position s' = \<lparr>x = 3, y = 4\<rparr>)"
proof -
  note t = click_humanScroll_keep_position [of noOpts "constState (5 / 8)" 100 _ 3 4 noOpts]
  obtain s1 where h: "humanScroll 100 (constState (5 / 8)) = Some s1"
    using humanScroll_fair [OF constState_draws(2)] by blast
  with t have 1: "get_position s1 = get_position (constState (5 / 8))" by blast
  have "\<exists>s2. moveTo 3 4 noOpts (constState (5 / 8)) = Some s2"
    by (rule moveTo_returns [where d = 5 and w = 50])
       (simp_all add: constState_eq fair_five_eighths vec_sub_def mag_3_4 noOpts_def
          js_or_num_def)
  then obtain s2 where m: "moveTo 3 4 noOpts (constState (5 / 8)) = Some s2" by blast
  with t have 2: "get_position s2 = \<lparr>x = 3, y = 4\<rparr>" by blast
  have "get_position (constState (5 / 8)) = \<lparr>x = 0, y = 0\<rparr>"
    by (simp add: get_position_def constState_eq)
  with t have 3: "get_position (click noOpts (constState (5 / 8))) = \<lparr>x = 0, y = 0\<rparr>"
    by simp
  show ?thesis using h 1 m 2 3 by blast
qed

section \<open>Typing pauses\<close>

lemma str_includes_empty: "str_includes s []"
  by (cases s) simp_all

lemma str_includes_single: "str_includes s [c] \<longleftrightarrow> c \<in> set s"
  by (induction s) auto

lemma punctuationPause_iff:
  assumes "i < length text"
  shows "punctuationPause text i \<longleftrightarrow> i = 0 \<or> text ! (i - 1) \<in> set '',. ;:!?''"
proof (cases "i = 0")
  case True
  then show ?thesis
    by (simp add: punctuationPause_def js_index_def js_or_str_def str_includes_empty)
next
  case False
  then have "js_index text (int i - 1) = Some [text ! (i - 1)]"
    using assms by (simp add: js_index_def nat_diff_distrib')
  then show ?thesis
    using False unfolding punctuationPause_def js_or_str_def
    by (simp only: option.case list.simps if_False str_includes_single) simp
qed

lemma gaussRandom_five_eighths:
  "gaussRandom (sconst (5 / 8)) = Some (boxMuller (1 / 4) (1 / 4), sconst (5 / 8))"
  by (subst gaussRandom_step) (simp add: pair_u_def pair_v_def accepted_def)

text \<open>
  C3.  That no punctuation pause occurs before the first character fails: at
  index 0 the previous character is \<^verbatim>\<open>undefined\<close>, the test is made on the empty
  string, and every string includes the empty string.  Typing \<open>a\<close> with every draw equal
  to \<open>5/8\<close> (so that no thinking pause is made), the page first receives a wait of
  \<open>round(80 + 5/8 \<sqdot> 120) = 155\<close> ms and only then the key.
\<close>

theorem humanType_pause_before_first:
  "punctuationPause ''a'' 0 \<and>
   map_option (take 2 \<circ> page) (humanType ''a'' noTypeOpts (constState (5 / 8)))
     = Some [Wait 155, KeyPress CHR ''a'']"
proof -
  have p: "punctuationPause ''a'' 0"
    by (simp add: punctuationPause_def js_index_def js_or_str_def)
  have g: "gauss m sd (sconst (5 / 8)) = Some (m + boxMuller (1 / 4) (1 / 4) * sd, sconst (5 / 8))"
    for m sd
    by (simp add: gauss_def gaussRandom_five_eighths)
  have r: "round (5 * 120 / 8 + 80 :: real) = 155" by (simp add: round_def)
  have "map_option (take 2 \<circ> page) (typeLoop ''a'' 65 35 0 (constState (5 / 8)))
          = Some [Wait 155, KeyPress CHR ''a'']"
    apply (subst typeLoop.simps)
    apply (simp add: p Let_def Math_random_def constState_eq g rand_eq)
    apply (subst typeLoop.simps)
    apply (simp add: r)
    done
  then show ?thesis
    using p by (simp add: humanType_def noTypeOpts_def js_or_def)
qed

end
